theory Spec2Isabelle
  imports Main
begin

section \<open>The button-machine optimiser (day 10)\<close>

text \<open>
  The source is a TypeScript module. A \<open>Machine\<close> has a target light pattern, a list of
  buttons (each a list of slot indices) and a list of joltage targets. Two solvers work on
  it: \<open>solveMachineLights\<close> (Gaussian elimination over the two-element field, then an
  enumeration of the free variables) and \<open>solveMachineJoltage\<close> (a recursion on the parity
  of the targets, with a memo table).

  JavaScript numbers are doubles. Integers of magnitude up to \<open>2 ^ 53\<close> are doubles, and
  arithmetic on them is exact while its results stay in that range; beyond it, sums and
  differences are rounded. The reduction solver is therefore given twice. The first
  version computes in exact integers (\<open>int\<close>); the questions of termination, recursion
  depth, unsolvable counters and the memo table are settled on it. The second version
  (suffix \<open>_fp\<close>, in its own section) has the rounding of double arithmetic written out;
  what the solver returns is settled on that one. The two are proved equal on targets
  below \<open>2 ^ 47\<close>.

  The bitwise operators \<open><<\<close>, \<open>>>\<close>, \<open>&\<close> and \<open>|\<close> first bring their operands to signed
  32-bit integers and use only the low five bits of a shift count; that is written out
  below, since bit masks over the buttons are central to both solvers.
\<close>

subsection \<open>Data\<close>

record Machine =
  target :: "bool list"
  buttons :: "int list list"
  joltage :: "int list"

record Result =
  cost :: "int option"
  solution :: "int list option"

subsection \<open>32-bit operators\<close>

definition toInt32 :: "int \<Rightarrow> int" where
  "toInt32 x = (x + 2 ^ 31) mod 2 ^ 32 - 2 ^ 31"

definition shl32 :: "int \<Rightarrow> nat \<Rightarrow> int" where
  "shl32 x n = toInt32 (toInt32 x * 2 ^ (n mod 32))"

definition sar32 :: "int \<Rightarrow> nat \<Rightarrow> int" where
  "sar32 x n = toInt32 x div 2 ^ (n mod 32)"

definition and32 :: "int \<Rightarrow> int \<Rightarrow> int" where
  "and32 x y = and (toInt32 x) (toInt32 y)"

definition or32 :: "int \<Rightarrow> int \<Rightarrow> int" where
  "or32 x y = or (toInt32 x) (toInt32 y)"

subsection \<open>The parity reduction solver\<close>

text \<open>
  \<open>includes_idx\<close> is \<open>Array.prototype.includes\<close> at a loop index; \<open>pressed\<close> is the test
  \<open>((pattern >> b) & 1) === 1\<close>; \<open>countTouching\<close> is the inner loop over the buttons that
  \<open>computeParity\<close> and \<open>applyPattern\<close> both run.
\<close>

definition includes_idx :: "int list \<Rightarrow> nat \<Rightarrow> bool" where
  "includes_idx button i = (int i \<in> set button)"

definition pressed :: "int \<Rightarrow> nat \<Rightarrow> bool" where
  "pressed pattern b = (and32 (sar32 pattern b) 1 = 1)"

definition countTouching :: "int \<Rightarrow> Machine \<Rightarrow> nat \<Rightarrow> int" where
  "countTouching pattern m j =
     fold (\<lambda>b count. if pressed pattern b \<and> includes_idx (buttons m ! b) j then count + 1 else count)
       [0..<length (buttons m)] 0"

definition computeParity :: "int \<Rightarrow> Machine \<Rightarrow> nat \<Rightarrow> int" where
  "computeParity buttonMask m numCounters =
     fold (\<lambda>j parity. if and32 (countTouching buttonMask m j) 1 = 1 then or32 parity (shl32 1 j) else parity)
       [0..<numCounters] 0"

definition precomputeParityPatterns :: "Machine \<Rightarrow> (int \<rightharpoonup> int list)" where
  "precomputeParityPatterns m =
     fold (\<lambda>mask pbp.
        let parity = computeParity mask m (length (joltage m));
            pbp1 = (case pbp parity of None \<Rightarrow> pbp(parity \<mapsto> []) | Some _ \<Rightarrow> pbp)
        in (case pbp1 parity of None \<Rightarrow> pbp1 | Some l \<Rightarrow> pbp1(parity \<mapsto> l @ [mask])))
       (map int [0..<nat (shl32 1 (length (buttons m)))]) Map.empty"

definition applyStep :: "int \<Rightarrow> int list \<Rightarrow> Machine \<Rightarrow> nat \<Rightarrow> int list option \<Rightarrow> int list option" where
  "applyStep pattern tgt m j acc =
     (case acc of None \<Rightarrow> None
      | Some newTarget \<Rightarrow>
          let newVal = tgt ! j - countTouching pattern m j
          in if newVal < 0 \<or> and32 newVal 1 = 1 then None
             else Some (newTarget @ [newVal div 2]))"

definition applyPattern :: "int \<Rightarrow> int list \<Rightarrow> Machine \<Rightarrow> int list option" where
  "applyPattern pattern tgt m = fold (applyStep pattern tgt m) [0..<length tgt] (Some [])"

definition combineSolution :: "int \<Rightarrow> int list \<Rightarrow> int list" where
  "combineSolution pattern subSolution =
     map (\<lambda>(v, b). if pressed pattern b then v * 2 + 1 else v * 2)
       (zip subSolution [0..<length subSolution])"

lemma toInt32_le: "0 \<le> n \<Longrightarrow> toInt32 n \<le> n"
proof -
  assume "0 \<le> n"
  then have "(n + 2 ^ 31) mod 2 ^ 32 \<le> n + 2 ^ 31"
    by (intro zmod_le_nonneg_dividend) simp
  then show ?thesis by (simp add: toInt32_def)
qed

lemma sar32_less: "0 < n \<Longrightarrow> sar32 n 1 < n"
proof -
  assume h: "0 < n"
  have "toInt32 n \<le> n" using h toInt32_le by simp
  then have "toInt32 n div 2 \<le> n div 2" by (rule zdiv_mono1) simp
  moreover have "n div 2 < n" using h by simp
  ultimately show ?thesis by (simp add: sar32_def)
qed

function countBits_loop :: "int \<Rightarrow> int \<Rightarrow> int" where
  "countBits_loop n count = (if n > 0 then countBits_loop (sar32 n 1) (count + and32 n 1) else count)"
  by pat_completeness auto
termination
  by (relation "measure (\<lambda>(n, count). nat n)") (use sar32_less in auto)

declare countBits_loop.simps [simp del]

definition countBits :: "int \<Rightarrow> int" where
  "countBits n = countBits_loop n 0"


function digits :: "nat \<Rightarrow> string" where
  "digits n = (if n < 10 then [''0123456789'' ! n] else digits (n div 10) @ [''0123456789'' ! (n mod 10)])"
  by pat_completeness auto
termination
  by (relation "measure id") auto

declare digits.simps [simp del]

definition numberToString :: "int \<Rightarrow> string" where
  "numberToString v = (if v < 0 then CHR ''-'' # digits (nat (- v)) else digits (nat v))"

fun join :: "string list \<Rightarrow> string \<Rightarrow> string" where
  "join [] sep = []"
| "join [x] sep = x"
| "join (x # y # ys) sep = x @ sep @ join (y # ys) sep"

definition memoKey :: "int list \<Rightarrow> string" where
  "memoKey tgt = join (map numberToString tgt) '',''"

definition targetParity :: "int list \<Rightarrow> int" where
  "targetParity tgt =
     fold (\<lambda>i parity. if and32 (tgt ! i) 1 = 1 then or32 parity (shl32 1 i) else parity)
       [0..<length tgt] 0"

definition unsolvable :: Result where
  "unsolvable = \<lparr>cost = None, solution = None\<rparr>"

definition better :: "int \<Rightarrow> Result \<Rightarrow> Result \<Rightarrow> Result" where
  "better pattern subResult bestResult =
     (case (cost subResult, solution subResult) of
        (Some subCost, Some subSolution) \<Rightarrow>
          let patternCost = countBits pattern;
              totalCost = patternCost + 2 * subCost
          in (case cost bestResult of
                None \<Rightarrow> \<lparr>cost = Some totalCost, solution = Some (combineSolution pattern subSolution)\<rparr>
              | Some bestCost \<Rightarrow>
                  if totalCost < bestCost
                  then \<lparr>cost = Some totalCost, solution = Some (combineSolution pattern subSolution)\<rparr>
                  else bestResult)
      | _ \<Rightarrow> bestResult)"

lemma toInt32_mod2: "toInt32 x mod 2 = x mod 2"
proof -
  have "(x + 2 ^ 31) mod 2 ^ 32 mod 2 = (x + 2 ^ 31) mod 2"
    by (rule mod_mod_cancel) simp
  then have a: "(x + 2147483648) mod 4294967296 mod 2 = (x + 2147483648) mod 2" by simp
  have "((x + 2147483648) mod 4294967296 - 2147483648) mod 2 = (x + 2147483648) mod 4294967296 mod 2"
    by presburger
  also have "\<dots> = (x + 2147483648) mod 2" by (rule a)
  also have "\<dots> = x mod 2" by presburger
  finally show ?thesis by (simp add: toInt32_def)
qed

lemma toInt32_small: "- (2 ^ 31) \<le> x \<Longrightarrow> x < 2 ^ 31 \<Longrightarrow> toInt32 x = x"
  by (simp add: toInt32_def)

lemma and32_one: "and32 x 1 = x mod 2"
proof -
  have "toInt32 1 = 1" by (simp add: toInt32_def)
  then have "and32 x 1 = toInt32 x mod 2" by (simp add: and32_def and_one_eq)
  then show ?thesis by (simp add: toInt32_mod2)
qed

lemma fold_count: "fold (\<lambda>b count. if P b then count + 1 else count) xs (a::int) = a + int (length (filter P xs))"
  by (induction xs arbitrary: a) auto

lemma countTouching_eq:
  "countTouching pattern m j =
     int (length (filter (\<lambda>b. pressed pattern b \<and> includes_idx (buttons m ! b) j) [0..<length (buttons m)]))"
  by (simp add: countTouching_def fold_count)

lemma countTouching_nonneg: "0 \<le> countTouching pattern m j"
  by (simp add: countTouching_eq)

lemma applyPattern_fold: "applyPattern pattern tgt m = fold (applyStep pattern tgt m) [0..<length tgt] (Some [])"
  by (simp add: applyPattern_def)

lemma applyStep_None [simp]: "applyStep pattern tgt m j None = None"
  by (simp add: applyStep_def)

lemma applyStep_fold_Some:
  "fold (applyStep pattern tgt m) [0..<n] (Some []) = Some nt \<Longrightarrow>
     length nt = n \<and> (\<forall>j<n. 0 \<le> nt ! j \<and> tgt ! j = 2 * (nt ! j) + countTouching pattern m j)"
proof (induction n arbitrary: nt)
  case 0
  then show ?case by simp
next
  case (Suc n)
  from Suc.prems obtain pre where pre: "fold (applyStep pattern tgt m) [0..<n] (Some []) = Some pre"
    and step: "applyStep pattern tgt m n (Some pre) = Some nt"
    by (cases "fold (applyStep pattern tgt m) [0..<n] (Some [])") auto
  from Suc.IH[OF pre] have len: "length pre = n"
    and ih: "\<forall>j<n. 0 \<le> pre ! j \<and> tgt ! j = 2 * (pre ! j) + countTouching pattern m j" by auto
  let ?v = "tgt ! n - countTouching pattern m n"
  from step have nt: "nt = pre @ [?v div 2]" and v0: "\<not> ?v < 0" and vev: "?v mod 2 \<noteq> 1"
    by (auto simp: applyStep_def Let_def and32_one split: if_splits)
  have last: "0 \<le> ?v div 2 \<and> tgt ! n = 2 * (?v div 2) + countTouching pattern m n"
    using v0 vev by presburger
  show ?case
  proof (intro conjI allI impI)
    show "length nt = Suc n" using nt len by simp
  next
    fix j assume "j < Suc n"
    then consider "j < n" | "j = n" by linarith
    then show "0 \<le> nt ! j" 
      using ih last nt len by cases (auto simp: nth_append)
  next
    fix j assume "j < Suc n"
    then consider "j < n" | "j = n" by linarith
    then show "tgt ! j = 2 * (nt ! j) + countTouching pattern m j"
      using ih last nt len by cases (auto simp: nth_append)
  qed
qed

lemma applyPattern_Some:
  "applyPattern pattern tgt m = Some nt \<Longrightarrow>
     length nt = length tgt \<and>
     (\<forall>j<length tgt. 0 \<le> nt ! j \<and> tgt ! j = 2 * (nt ! j) + countTouching pattern m j)"
  unfolding applyPattern_fold by (rule applyStep_fold_Some)

lemma sum_list_nat_less:
  assumes "length xs = length ys" "\<forall>j<length ys. nat (xs ! j) \<le> nat (ys ! j)"
    "\<exists>j<length ys. nat (xs ! j) < nat (ys ! j)"
  shows "sum_list (map nat xs) < sum_list (map nat ys)"
  using assms
proof (induction xs ys rule: list_induct2)
  case Nil
  then show ?case by simp
next
  case (Cons x xs y ys)
  have le: "\<forall>j<length ys. nat (xs ! j) \<le> nat (ys ! j)"
    using Cons.prems(1) by (metis Suc_less_eq length_Cons nth_Cons_Suc)
  have hd: "nat x \<le> nat y" using Cons.prems(1) by (metis length_Cons nth_Cons_0 zero_less_Suc)
  have rest: "sum_list (map nat xs) \<le> sum_list (map nat ys)"
    using Cons.hyps le by (simp add: sum_list_mono2 nth_map)
  from Cons.prems(2) obtain j where j: "j < Suc (length ys)" "nat ((x # xs) ! j) < nat ((y # ys) ! j)" by auto
  show ?case
  proof (cases j)
    case 0
    then have "nat x < nat y" using j by simp
    then show ?thesis using rest unfolding list.map sum_list.Cons by linarith
  next
    case (Suc k)
    then have "\<exists>j<length ys. nat (xs ! j) < nat (ys ! j)" using j by auto
    from Cons.IH[OF le this] show ?thesis using hd unfolding list.map sum_list.Cons by linarith
  qed
qed

lemma applyPattern_decreases:
  assumes "applyPattern pattern tgt m = Some nt" "\<not> list_all (\<lambda>v. v = 0) tgt"
  shows "sum_list (map nat nt) < sum_list (map nat tgt)"
proof -
  from applyPattern_Some[OF assms(1)] have len: "length nt = length tgt"
    and eq: "\<forall>j<length tgt. 0 \<le> nt ! j \<and> tgt ! j = 2 * (nt ! j) + countTouching pattern m j" by auto
  have le: "\<forall>j<length tgt. nat (nt ! j) \<le> nat (tgt ! j)"
  proof (intro allI impI)
    fix j assume "j < length tgt"
    with eq have "0 \<le> nt ! j" "tgt ! j = 2 * (nt ! j) + countTouching pattern m j" by auto
    then show "nat (nt ! j) \<le> nat (tgt ! j)" using countTouching_nonneg[of pattern m j] by linarith
  qed
  from assms(2) obtain j where j: "j < length tgt" "tgt ! j \<noteq> 0"
    by (auto simp: list_all_length)
  with eq have "0 \<le> nt ! j" "tgt ! j = 2 * (nt ! j) + countTouching pattern m j" by auto
  then have "nat (nt ! j) < nat (tgt ! j)" using countTouching_nonneg[of pattern m j] j(2) by linarith
  with j have "\<exists>j<length tgt. nat (nt ! j) < nat (tgt ! j)" by auto
  from sum_list_nat_less[OF len le this] show ?thesis .
qed

function solveRecursive ::
  "Machine \<Rightarrow> (int \<rightharpoonup> int list) \<Rightarrow> int list \<Rightarrow> (string \<rightharpoonup> Result) \<Rightarrow> Result \<times> (string \<rightharpoonup> Result)" where
  "solveRecursive m parityPatterns tgt memo =
     (if list_all (\<lambda>v. v = 0) tgt
      then (\<lparr>cost = Some 0, solution = Some (replicate (length (buttons m)) 0)\<rparr>, memo)
      else
        let key = memoKey tgt in
        case memo key of
          Some r \<Rightarrow> (r, memo)
        | None \<Rightarrow>
            (case parityPatterns (targetParity tgt) of
               None \<Rightarrow> (unsolvable, memo(key \<mapsto> unsolvable))
             | Some patterns \<Rightarrow>
                 if patterns = [] then (unsolvable, memo(key \<mapsto> unsolvable))
                 else
                   (case fold (\<lambda>pattern (bestResult, memo1).
                                 case applyPattern pattern tgt m of
                                   None \<Rightarrow> (bestResult, memo1)
                                 | Some newTarget \<Rightarrow>
                                     (case solveRecursive m parityPatterns newTarget memo1 of
                                        (subResult, memo2) \<Rightarrow> (better pattern subResult bestResult, memo2)))
                           patterns (unsolvable, memo) of
                      (bestResult, memo') \<Rightarrow> (bestResult, memo'(key \<mapsto> bestResult)))))"
  by pat_completeness auto
termination
  apply (relation "measure (\<lambda>(m, pp, tgt, memo). sum_list (map nat tgt))")
   apply simp
  apply (auto simp: applyPattern_decreases)
  done

declare solveRecursive.simps [simp del]

definition solveMachineJoltage :: "Machine \<Rightarrow> int list option" where
  "solveMachineJoltage m =
     (if length (joltage m) = 0 then Some (replicate (length (buttons m)) 0)
      else solution (fst (solveRecursive m (precomputeParityPatterns m) (joltage m) Map.empty)))"


subsection \<open>The memo key is injective\<close>

lemma digit_chars_distinct: "distinct ''0123456789''"
  by simp

lemma digit_char_inj:
  assumes "a < 10" "b < 10" "''0123456789'' ! a = ''0123456789'' ! b"
  shows "a = b"
proof -
  have "a < length ''0123456789''" "b < length ''0123456789''" using assms by simp_all
  with digit_chars_distinct assms(3) show ?thesis
    by (simp only: nth_eq_iff_index_eq)
qed

lemma digit_char_in: "d < 10 \<Longrightarrow> ''0123456789'' ! d \<in> set ''0123456789''"
  by (rule nth_mem) simp

lemma digits_nonempty: "digits n \<noteq> []"
  by (subst digits.simps) simp

lemma digits_chars: "set (digits n) \<subseteq> set ''0123456789''"
proof (induction n rule: digits.induct)
  case (1 n)
  show ?case
  proof (cases "n < 10")
    case True
    then show ?thesis using digit_char_in[of n] by (subst digits.simps) simp
  next
    case False
    have "n mod 10 < 10" by simp
    from digit_char_in[OF this] 1[OF False] False show ?thesis
      by (subst digits.simps) simp
  qed
qed

lemma digits_inj: "digits a = digits b \<Longrightarrow> a = b"
proof (induction a arbitrary: b rule: digits.induct)
  case (1 n)
  show ?case
  proof (cases "n < 10")
    case True
    then have dn: "digits n = [''0123456789'' ! n]" by (subst digits.simps) simp
    show ?thesis
    proof (cases "b < 10")
      case True
      then have "digits b = [''0123456789'' ! b]" by (subst digits.simps) simp
      with dn "1.prems" have "''0123456789'' ! n = ''0123456789'' ! b" by simp
      with \<open>n < 10\<close> True show ?thesis by (rule digit_char_inj)
    next
      case False
      then have "digits b = digits (b div 10) @ [''0123456789'' ! (b mod 10)]"
        by (subst digits.simps) simp
      with dn "1.prems" have "digits (b div 10) = []" by simp
      then show ?thesis using digits_nonempty by simp
    qed
  next
    case False
    then have dn: "digits n = digits (n div 10) @ [''0123456789'' ! (n mod 10)]"
      by (subst digits.simps) simp
    show ?thesis
    proof (cases "b < 10")
      case True
      then have "digits b = [''0123456789'' ! b]" by (subst digits.simps) simp
      with dn "1.prems" have "digits (n div 10) = []" by simp
      then show ?thesis using digits_nonempty by simp
    next
      case bf: False
      then have "digits b = digits (b div 10) @ [''0123456789'' ! (b mod 10)]"
        by (subst digits.simps) simp
      with dn "1.prems" have e1: "digits (n div 10) = digits (b div 10)"
        and e2: "''0123456789'' ! (n mod 10) = ''0123456789'' ! (b mod 10)" by simp_all
      from "1.IH"[OF False e1] have d: "n div 10 = b div 10" .
      have "n mod 10 = b mod 10" by (rule digit_char_inj[OF _ _ e2]) simp_all
      with d show ?thesis by (metis div_mult_mod_eq)
    qed
  qed
qed

lemma digits_no_minus: "CHR ''-'' \<notin> set (digits n)"
  using digits_chars[of n] by auto

lemma digits_no_comma: "CHR '','' \<notin> set (digits n)"
  using digits_chars[of n] by auto

lemma numberToString_inj: "numberToString a = numberToString b \<Longrightarrow> a = b"
proof -
  assume eq: "numberToString a = numberToString b"
  have hd_nonneg: "\<And>v. \<not> v < 0 \<Longrightarrow> hd (numberToString v) \<noteq> CHR ''-''"
  proof -
    fix v :: int assume "\<not> v < 0"
    then have "numberToString v = digits (nat v)" by (simp add: numberToString_def)
    moreover have "hd (digits (nat v)) \<in> set (digits (nat v))" using digits_nonempty by simp
    ultimately show "hd (numberToString v) \<noteq> CHR ''-''" using digits_no_minus by metis
  qed
  have hd_neg: "\<And>v. v < 0 \<Longrightarrow> hd (numberToString v) = CHR ''-''"
    by (simp add: numberToString_def)
  have same: "(a < 0) = (b < 0)" using eq hd_nonneg hd_neg by metis
  show ?thesis
  proof (cases "a < 0")
    case True
    with same eq have "digits (nat (- a)) = digits (nat (- b))" by (simp add: numberToString_def)
    then have "nat (- a) = nat (- b)" by (rule digits_inj)
    with True same show ?thesis by simp
  next
    case False
    with same eq have "digits (nat a) = digits (nat b)" by (simp add: numberToString_def)
    then have "nat a = nat b" by (rule digits_inj)
    with False same show ?thesis by simp
  qed
qed

lemma numberToString_no_comma: "CHR '','' \<notin> set (numberToString v)"
  using digits_no_comma by (simp add: numberToString_def)

lemma numberToString_nonempty: "numberToString v \<noteq> []"
  using digits_nonempty by (simp add: numberToString_def)

lemma comma_split:
  assumes "CHR '','' \<notin> set x" "CHR '','' \<notin> set y" "x @ CHR '','' # r = y @ CHR '','' # s"
  shows "x = y \<and> r = s"
  using assms
proof (induction x arbitrary: y)
  case Nil
  then show ?case by (cases y) auto
next
  case (Cons c x)
  then show ?case by (cases y) auto
qed

lemma comma_free_neq:
  assumes "CHR '','' \<notin> set x" shows "x \<noteq> y @ CHR '','' # s"
  using assms by auto

lemma join_Cons: "join (x # xs) sep = (if xs = [] then x else x @ sep @ join xs sep)"
  by (cases xs) simp_all

lemma join_nonempty: "x \<noteq> [] \<Longrightarrow> join (x # xs) sep \<noteq> []"
  by (simp add: join_Cons)

lemma join_inj:
  assumes "\<forall>x\<in>set xs. x \<noteq> [] \<and> CHR '','' \<notin> set x" "\<forall>y\<in>set ys. y \<noteq> [] \<and> CHR '','' \<notin> set y"
    "join xs '','' = join ys '',''"
  shows "xs = ys"
  using assms
proof (induction xs arbitrary: ys)
  case Nil
  show ?case
  proof (cases ys)
    case Nil
    then show ?thesis by simp
  next
    case (Cons y ys')
    with Nil.prems(2) have "y \<noteq> []" by simp
    from join_nonempty[OF this, of ys' "'',''"] Nil.prems(3) Cons show ?thesis by simp
  qed
next
  case (Cons x xs)
  from Cons.prems(1) have x: "x \<noteq> []" "CHR '','' \<notin> set x"
    and xs: "\<forall>x\<in>set xs. x \<noteq> [] \<and> CHR '','' \<notin> set x" by simp_all
  show ?case
  proof (cases ys)
    case Nil
    with join_nonempty[OF x(1), of xs "'',''"] Cons.prems(3) show ?thesis by simp
  next
    case (Cons y ys')
    with Cons.prems(2) have y: "y \<noteq> []" "CHR '','' \<notin> set y"
      and ys': "\<forall>y\<in>set ys'. y \<noteq> [] \<and> CHR '','' \<notin> set y" by simp_all
    from Cons.prems(3) Cons
    have eq: "(if xs = [] then x else x @ '','' @ join xs '','') = (if ys' = [] then y else y @ '','' @ join ys' '','')"
      by (simp only: join_Cons)
    consider (a) "xs = []" "ys' = []" | (b) "xs = []" "ys' \<noteq> []" | (c) "xs \<noteq> []" "ys' = []"
      | (d) "xs \<noteq> []" "ys' \<noteq> []" by blast
    then show ?thesis
    proof cases
      case a
      with eq Cons show ?thesis by simp
    next
      case b
      with eq have "x = y @ CHR '','' # join ys' '',''" by simp
      with comma_free_neq[OF x(2)] show ?thesis by blast
    next
      case c
      with eq have "y = x @ CHR '','' # join xs '',''" by simp
      with comma_free_neq[OF y(2)] show ?thesis by blast
    next
      case d
      with eq have "x @ CHR '','' # join xs '','' = y @ CHR '','' # join ys' '',''" by simp
      from comma_split[OF x(2) y(2) this] have "x = y" "join xs '','' = join ys' '',''" by simp_all
      with Cons.IH[OF xs ys'] Cons show ?thesis by simp
    qed
  qed
qed

lemma memoKey_inj: "memoKey xs = memoKey ys \<Longrightarrow> xs = ys"
proof -
  assume "memoKey xs = memoKey ys"
  then have "join (map numberToString xs) '','' = join (map numberToString ys) '',''"
    by (simp add: memoKey_def)
  moreover have "\<forall>x\<in>set (map numberToString xs). x \<noteq> [] \<and> CHR '','' \<notin> set x"
    using numberToString_nonempty numberToString_no_comma by auto
  moreover have "\<forall>x\<in>set (map numberToString ys). x \<noteq> [] \<and> CHR '','' \<notin> set x"
    using numberToString_nonempty numberToString_no_comma by auto
  ultimately have "map numberToString xs = map numberToString ys"
    using join_inj by blast
  then show ?thesis
    using numberToString_inj by (metis inj_onI list.inj_map_strong)
qed

subsection \<open>The recursion without the memo table\<close>

function solveNoMemo :: "Machine \<Rightarrow> (int \<rightharpoonup> int list) \<Rightarrow> int list \<Rightarrow> Result" where
  "solveNoMemo m parityPatterns tgt =
     (if list_all (\<lambda>v. v = 0) tgt
      then \<lparr>cost = Some 0, solution = Some (replicate (length (buttons m)) 0)\<rparr>
      else
        (case parityPatterns (targetParity tgt) of
           None \<Rightarrow> unsolvable
         | Some patterns \<Rightarrow>
             if patterns = [] then unsolvable
             else
               fold (\<lambda>pattern bestResult.
                       case applyPattern pattern tgt m of
                         None \<Rightarrow> bestResult
                       | Some newTarget \<Rightarrow>
                           better pattern (solveNoMemo m parityPatterns newTarget) bestResult)
                 patterns unsolvable))"
  by pat_completeness auto
termination
  apply (relation "measure (\<lambda>(m, pp, tgt). sum_list (map nat tgt))")
   apply simp
  apply (auto simp: applyPattern_decreases)
  done

declare solveNoMemo.simps [simp del]

definition memoStep ::
  "Machine \<Rightarrow> (int \<rightharpoonup> int list) \<Rightarrow> int list \<Rightarrow> int \<Rightarrow> Result \<times> (string \<rightharpoonup> Result) \<Rightarrow> Result \<times> (string \<rightharpoonup> Result)" where
  "memoStep m parityPatterns tgt pattern acc =
     (case acc of (bestResult, memo1) \<Rightarrow>
        (case applyPattern pattern tgt m of
           None \<Rightarrow> (bestResult, memo1)
         | Some newTarget \<Rightarrow>
             (case solveRecursive m parityPatterns newTarget memo1 of
                (subResult, memo2) \<Rightarrow> (better pattern subResult bestResult, memo2))))"

definition pureStep :: "Machine \<Rightarrow> (int \<rightharpoonup> int list) \<Rightarrow> int list \<Rightarrow> int \<Rightarrow> Result \<Rightarrow> Result" where
  "pureStep m parityPatterns tgt pattern bestResult =
     (case applyPattern pattern tgt m of
        None \<Rightarrow> bestResult
      | Some newTarget \<Rightarrow> better pattern (solveNoMemo m parityPatterns newTarget) bestResult)"

definition baseResult :: "Machine \<Rightarrow> Result" where
  "baseResult m = \<lparr>cost = Some 0, solution = Some (replicate (length (buttons m)) 0)\<rparr>"

lemma solveRecursive_unfold:
  "solveRecursive m pp tgt memo =
     (if list_all (\<lambda>v. v = 0) tgt then (baseResult m, memo)
      else case memo (memoKey tgt) of
          Some r \<Rightarrow> (r, memo)
        | None \<Rightarrow>
            (case pp (targetParity tgt) of
               None \<Rightarrow> (unsolvable, memo(memoKey tgt \<mapsto> unsolvable))
             | Some patterns \<Rightarrow>
                 if patterns = [] then (unsolvable, memo(memoKey tgt \<mapsto> unsolvable))
                 else (case fold (memoStep m pp tgt) patterns (unsolvable, memo) of
                         (bestResult, memo') \<Rightarrow> (bestResult, memo'(memoKey tgt \<mapsto> bestResult)))))"
  by (subst solveRecursive.simps)
    (simp add: memoStep_def[abs_def] baseResult_def Let_def split: option.splits)

lemma solveNoMemo_unfold:
  "solveNoMemo m pp tgt =
     (if list_all (\<lambda>v. v = 0) tgt then baseResult m
      else case pp (targetParity tgt) of
          None \<Rightarrow> unsolvable
        | Some patterns \<Rightarrow>
            if patterns = [] then unsolvable
            else fold (pureStep m pp tgt) patterns unsolvable)"
  by (subst solveNoMemo.simps)
    (simp add: pureStep_def[abs_def] baseResult_def split: option.splits)

definition memo_ok :: "Machine \<Rightarrow> (int \<rightharpoonup> int list) \<Rightarrow> (string \<rightharpoonup> Result) \<Rightarrow> bool" where
  "memo_ok m pp memo = (\<forall>tgt r. memo (memoKey tgt) = Some r \<longrightarrow> r = solveNoMemo m pp tgt)"

lemma memo_ok_empty: "memo_ok m pp Map.empty"
  by (simp add: memo_ok_def)

lemma memo_ok_update:
  "memo_ok m pp memo \<Longrightarrow> memo_ok m pp (memo(memoKey tgt \<mapsto> solveNoMemo m pp tgt))"
  unfolding memo_ok_def using memoKey_inj by auto

lemma memoStep_fold:
  assumes rec: "\<And>p nt memo. p \<in> set ps \<Longrightarrow> applyPattern p tgt m = Some nt \<Longrightarrow> memo_ok m pp memo \<Longrightarrow>
      fst (solveRecursive m pp nt memo) = solveNoMemo m pp nt \<and> memo_ok m pp (snd (solveRecursive m pp nt memo))"
    and ok: "memo_ok m pp memo"
  shows "fst (fold (memoStep m pp tgt) ps (best, memo)) = fold (pureStep m pp tgt) ps best
         \<and> memo_ok m pp (snd (fold (memoStep m pp tgt) ps (best, memo)))"
  using rec ok
proof (induction ps arbitrary: best memo)
  case Nil
  then show ?case by simp
next
  case (Cons p ps)
  obtain best1 memo1 where step: "memoStep m pp tgt p (best, memo) = (best1, memo1)"
    by (cases "memoStep m pp tgt p (best, memo)")
  have "best1 = pureStep m pp tgt p best \<and> memo_ok m pp memo1"
  proof (cases "applyPattern p tgt m")
    case None
    with step Cons.prems(2) show ?thesis by (simp add: memoStep_def pureStep_def)
  next
    case (Some nt)
    from Cons.prems(1)[of p nt memo] Some Cons.prems(2)
    have "fst (solveRecursive m pp nt memo) = solveNoMemo m pp nt"
      "memo_ok m pp (snd (solveRecursive m pp nt memo))" by simp_all
    with step Some show ?thesis
      by (auto simp: memoStep_def pureStep_def split: prod.splits)
  qed
  then have b1: "best1 = pureStep m pp tgt p best" and ok1: "memo_ok m pp memo1" by simp_all
  have "fst (fold (memoStep m pp tgt) ps (best1, memo1)) = fold (pureStep m pp tgt) ps best1
         \<and> memo_ok m pp (snd (fold (memoStep m pp tgt) ps (best1, memo1)))"
    by (rule Cons.IH) (use Cons.prems(1) ok1 in auto)
  with step b1 show ?case by simp
qed

lemma solveRecursive_memo:
  "memo_ok m pp memo \<Longrightarrow>
     fst (solveRecursive m pp tgt memo) = solveNoMemo m pp tgt
     \<and> memo_ok m pp (snd (solveRecursive m pp tgt memo))"
proof (induction "sum_list (map nat tgt)" arbitrary: tgt memo rule: less_induct)
  case less
  note ok = less.prems
  show ?case
  proof (cases "list_all (\<lambda>v. v = 0) tgt")
    case True
    then show ?thesis using ok
      by (simp add: solveRecursive_unfold solveNoMemo_unfold)
  next
    case nz: False
    show ?thesis
    proof (cases "memo (memoKey tgt)")
      case (Some r)
      with ok have "r = solveNoMemo m pp tgt" by (simp add: memo_ok_def)
      with Some nz ok show ?thesis by (simp add: solveRecursive_unfold)
    next
      case None
      show ?thesis
      proof (cases "pp (targetParity tgt)")
        case pn: None
        then have pure: "solveNoMemo m pp tgt = unsolvable" using nz by (simp add: solveNoMemo_unfold)
        have "solveRecursive m pp tgt memo = (unsolvable, memo(memoKey tgt \<mapsto> unsolvable))"
          using nz None pn by (simp add: solveRecursive_unfold)
        then show ?thesis using pure memo_ok_update[OF ok, of tgt] by simp
      next
        case (Some patterns)
        show ?thesis
        proof (cases "patterns = []")
          case True
          then have pure: "solveNoMemo m pp tgt = unsolvable" using nz Some by (simp add: solveNoMemo_unfold)
          have "solveRecursive m pp tgt memo = (unsolvable, memo(memoKey tgt \<mapsto> unsolvable))"
            using nz None Some True by (simp add: solveRecursive_unfold)
          then show ?thesis using pure memo_ok_update[OF ok, of tgt] by simp
        next
          case ne: False
          obtain best memo' where f: "fold (memoStep m pp tgt) patterns (unsolvable, memo) = (best, memo')"
            by (cases "fold (memoStep m pp tgt) patterns (unsolvable, memo)")
          have "fst (fold (memoStep m pp tgt) patterns (unsolvable, memo)) = fold (pureStep m pp tgt) patterns unsolvable
              \<and> memo_ok m pp (snd (fold (memoStep m pp tgt) patterns (unsolvable, memo)))"
          proof (rule memoStep_fold)
            fix p nt memo1
            assume "applyPattern p tgt m = Some nt" and ok1: "memo_ok m pp memo1"
            then have "sum_list (map nat nt) < sum_list (map nat tgt)"
              using applyPattern_decreases nz by blast
            from less.hyps[OF this ok1]
            show "fst (solveRecursive m pp nt memo1) = solveNoMemo m pp nt \<and>
                  memo_ok m pp (snd (solveRecursive m pp nt memo1))" .
          next
            show "memo_ok m pp memo" by (rule ok)
          qed
          with f have b: "best = fold (pureStep m pp tgt) patterns unsolvable" and ok': "memo_ok m pp memo'"
            by simp_all
          have pure: "solveNoMemo m pp tgt = best" using nz Some ne b by (simp add: solveNoMemo_unfold)
          have "solveRecursive m pp tgt memo = (best, memo'(memoKey tgt \<mapsto> best))"
            using nz None Some ne f by (simp add: solveRecursive_unfold)
          then show ?thesis using pure memo_ok_update[OF ok', of tgt] by simp
        qed
      qed
    qed
  qed
qed

subsection \<open>Press vectors that satisfy a machine\<close>

definition counterSum :: "Machine \<Rightarrow> int list \<Rightarrow> nat \<Rightarrow> int" where
  "counterSum m presses i =
     sum_list (map (\<lambda>b. if includes_idx (buttons m ! b) i then presses ! b else 0) [0..<length (buttons m)])"

definition satisfies :: "Machine \<Rightarrow> int list \<Rightarrow> int list \<Rightarrow> bool" where
  "satisfies m tgt presses =
     (length presses = length (buttons m) \<and> (\<forall>b<length presses. 0 \<le> presses ! b) \<and>
      (\<forall>i<length tgt. counterSum m presses i = tgt ! i))"

definition pressCount :: "int \<Rightarrow> nat \<Rightarrow> int" where
  "pressCount pattern n = sum_list (map (\<lambda>b. if pressed pattern b then 1 else 0) [0..<n])"

lemma length_filter_sum: "int (length (filter P xs)) = sum_list (map (\<lambda>x. if P x then 1 else 0) xs)"
  by (induction xs) auto

lemma countTouching_sum:
  "countTouching pattern m j =
     sum_list (map (\<lambda>b. if pressed pattern b \<and> includes_idx (buttons m ! b) j then 1 else 0) [0..<length (buttons m)])"
  by (simp add: countTouching_eq length_filter_sum)

lemma combineSolution_length [simp]: "length (combineSolution pattern s) = length s"
  by (simp add: combineSolution_def)

lemma combineSolution_nth:
  "b < length s \<Longrightarrow> combineSolution pattern s ! b = 2 * (s ! b) + (if pressed pattern b then 1 else 0)"
  by (simp add: combineSolution_def)

lemma sum_list_upt_cong:
  "(\<And>b. b < n \<Longrightarrow> f b = g b) \<Longrightarrow> sum_list (map f [0..<n]) = sum_list (map g [0..<n])"
  by (rule arg_cong[where f=sum_list]) simp

lemma counterSum_combine:
  assumes "length s = length (buttons m)"
  shows "counterSum m (combineSolution pattern s) i = 2 * counterSum m s i + countTouching pattern m i"
proof -
  let ?B = "length (buttons m)"
  let ?inc = "\<lambda>b. includes_idx (buttons m ! b) i"
  have "counterSum m (combineSolution pattern s) i =
      sum_list (map (\<lambda>b. 2 * (if ?inc b then s ! b else 0) + (if pressed pattern b \<and> ?inc b then 1 else 0)) [0..<?B])"
    unfolding counterSum_def
    by (rule sum_list_upt_cong) (simp add: combineSolution_nth assms)
  also have "\<dots> = 2 * sum_list (map (\<lambda>b. if ?inc b then s ! b else 0) [0..<?B])
      + sum_list (map (\<lambda>b. if pressed pattern b \<and> ?inc b then 1 else 0) [0..<?B])"
    by (simp add: sum_list_addf sum_list_const_mult)
  finally show ?thesis by (simp add: counterSum_def countTouching_sum)
qed

lemma sum_list_nth_upt: "sum_list xs = sum_list (map (\<lambda>b. xs ! b) [0..<length xs])"
  by (simp add: map_nth)

lemma sum_list_combine:
  "sum_list (combineSolution pattern s) = 2 * sum_list s + pressCount pattern (length s)"
proof -
  have "sum_list (combineSolution pattern s) =
      sum_list (map (\<lambda>b. combineSolution pattern s ! b) [0..<length s])"
    using sum_list_nth_upt[of "combineSolution pattern s"] by simp
  also have "\<dots> = sum_list (map (\<lambda>b. 2 * (s ! b) + (if pressed pattern b then 1 else 0)) [0..<length s])"
    by (rule sum_list_upt_cong) (simp add: combineSolution_nth)
  also have "\<dots> = 2 * sum_list (map (\<lambda>b. s ! b) [0..<length s]) + pressCount pattern (length s)"
    by (simp add: sum_list_addf sum_list_const_mult pressCount_def)
  finally show ?thesis by (simp add: map_nth)
qed

lemma satisfies_combine:
  assumes ap: "applyPattern pattern tgt m = Some nt" and sat: "satisfies m nt s"
  shows "satisfies m tgt (combineSolution pattern s)"
proof -
  from sat have len: "length s = length (buttons m)" and nn: "\<forall>b<length s. 0 \<le> s ! b"
    and cs: "\<forall>i<length nt. counterSum m s i = nt ! i" by (simp_all add: satisfies_def)
  from applyPattern_Some[OF ap] have lnt: "length nt = length tgt"
    and eq: "\<forall>j<length tgt. tgt ! j = 2 * (nt ! j) + countTouching pattern m j" by simp_all
  have "\<forall>b<length s. 0 \<le> combineSolution pattern s ! b"
    using nn by (simp add: combineSolution_nth)
  moreover have "\<forall>i<length tgt. counterSum m (combineSolution pattern s) i = tgt ! i"
    using cs eq lnt by (simp add: counterSum_combine[OF len])
  ultimately show ?thesis using len by (simp add: satisfies_def)
qed

lemma satisfies_zero:
  assumes "list_all (\<lambda>v. v = 0) tgt"
  shows "satisfies m tgt (replicate (length (buttons m)) 0)"
proof -
  have "\<And>i. counterSum m (replicate (length (buttons m)) 0) i = 0"
  proof -
    fix i
    have "counterSum m (replicate (length (buttons m)) 0) i = sum_list (map (\<lambda>b. 0) [0..<length (buttons m)])"
      unfolding counterSum_def by (rule sum_list_upt_cong) simp
    then show "counterSum m (replicate (length (buttons m)) 0) i = 0" by simp
  qed
  moreover have "\<forall>i<length tgt. tgt ! i = 0" using assms by (simp add: list_all_length)
  ultimately show ?thesis by (simp add: satisfies_def)
qed

text \<open>What a result of the recursion looks like: both fields null, or a cost with a press vector.\<close>

definition sound :: "Machine \<Rightarrow> int list \<Rightarrow> Result \<Rightarrow> bool" where
  "sound m tgt r =
     (case (cost r, solution r) of
        (None, None) \<Rightarrow> True
      | (Some c, Some s) \<Rightarrow> satisfies m tgt s
      | _ \<Rightarrow> False)"

lemma sound_unsolvable [simp]: "sound m tgt unsolvable"
  by (simp add: sound_def unsolvable_def)

lemma sound_better:
  assumes "applyPattern pattern tgt m = Some nt" "sound m nt sub" "sound m tgt best"
  shows "sound m tgt (better pattern sub best)"
proof (cases "cost sub")
  case None
  then show ?thesis using assms(3) by (simp add: better_def)
next
  case (Some c)
  with assms(2) obtain s where s: "solution sub = Some s" "satisfies m nt s"
    by (auto simp: sound_def split: option.splits)
  from satisfies_combine[OF assms(1) s(2)] have "satisfies m tgt (combineSolution pattern s)" .
  then show ?thesis using Some s(1) assms(3)
    by (auto simp: better_def sound_def Let_def split: option.splits)
qed

lemma sound_fold:
  assumes "\<And>p nt. p \<in> set ps \<Longrightarrow> applyPattern p tgt m = Some nt \<Longrightarrow> sound m nt (solveNoMemo m pp nt)"
    and "sound m tgt best"
  shows "sound m tgt (fold (pureStep m pp tgt) ps best)"
  using assms
proof (induction ps arbitrary: best)
  case Nil
  then show ?case by simp
next
  case (Cons p ps)
  have "sound m tgt (pureStep m pp tgt p best)"
  proof (cases "applyPattern p tgt m")
    case None
    then show ?thesis using Cons.prems(2) by (simp add: pureStep_def)
  next
    case (Some nt)
    with Cons.prems(1)[of p nt] have "sound m nt (solveNoMemo m pp nt)" by simp
    from sound_better[OF Some this Cons.prems(2)] Some show ?thesis by (simp add: pureStep_def)
  qed
  moreover have "\<And>q nt. q \<in> set ps \<Longrightarrow> applyPattern q tgt m = Some nt \<Longrightarrow> sound m nt (solveNoMemo m pp nt)"
    using Cons.prems(1) by (meson list.set_intros(2))
  ultimately show ?case using Cons.IH by simp
qed

lemma solveNoMemo_sound: "sound m tgt (solveNoMemo m pp tgt)"
proof (induction "sum_list (map nat tgt)" arbitrary: tgt rule: less_induct)
  case less
  show ?case
  proof (cases "list_all (\<lambda>v. v = 0) tgt")
    case True
    then show ?thesis using satisfies_zero[OF True, of m]
      by (simp add: solveNoMemo_unfold baseResult_def sound_def)
  next
    case nz: False
    have step: "\<And>ps. sound m tgt (fold (pureStep m pp tgt) ps unsolvable)"
    proof (rule sound_fold)
      fix ps p nt assume "applyPattern p tgt m = Some nt"
      then have "sum_list (map nat nt) < sum_list (map nat tgt)"
        using applyPattern_decreases nz by blast
      then show "sound m nt (solveNoMemo m pp nt)" by (rule less.hyps)
    qed simp
    show ?thesis using nz step
      by (simp add: solveNoMemo_unfold split: option.splits)
  qed
qed

subsection \<open>Counting the bits of a mask\<close>

lemma sar32_small: "0 \<le> p \<Longrightarrow> p < 2 ^ 31 \<Longrightarrow> b < 32 \<Longrightarrow> sar32 p b = p div 2 ^ b"
  by (simp add: sar32_def toInt32_small)

lemma pressed_small: "0 \<le> p \<Longrightarrow> p < 2 ^ 31 \<Longrightarrow> b < 32 \<Longrightarrow> pressed p b = odd (p div 2 ^ b)"
  by (simp add: pressed_def and32_one sar32_small odd_iff_mod_2_eq_one)

lemma countBits_loop_sum:
  "0 \<le> n \<Longrightarrow> n < 2 ^ k \<Longrightarrow> k \<le> 31 \<Longrightarrow>
     countBits_loop n c = c + (\<Sum>b<k. (n div 2 ^ b) mod 2)"
proof (induction k arbitrary: n c)
  case 0
  then have "n = 0" by simp
  then show ?case by (subst countBits_loop.simps) simp
next
  case (Suc k)
  show ?case
  proof (cases "n = 0")
    case True
    then show ?thesis by (subst countBits_loop.simps) simp
  next
    case False
    with Suc.prems have pos: "0 < n" by simp
    have "(2::int) ^ Suc k \<le> 2 ^ 31" using Suc.prems(3) by (intro power_increasing) simp_all
    with Suc.prems have n31: "n < 2 ^ 31" by linarith
    have sh: "sar32 n 1 = n div 2" using sar32_small[of n 1] Suc.prems n31 by simp
    have half: "0 \<le> n div 2" "n div 2 < 2 ^ k" using Suc.prems by simp_all
    have "countBits_loop n c = countBits_loop (n div 2) (c + n mod 2)"
      using pos sh by (subst countBits_loop.simps) (simp add: and32_one)
    also have "\<dots> = c + n mod 2 + (\<Sum>b<k. (n div 2 div 2 ^ b) mod 2)"
      using Suc.IH[OF half] Suc.prems(3) by simp
    also have "(\<Sum>b<k. (n div 2 div 2 ^ b) mod 2) = (\<Sum>b<k. (n div 2 ^ Suc b) mod 2)"
      by (simp add: zdiv_zmult2_eq)
    also have "c + n mod 2 + (\<Sum>b<k. (n div 2 ^ Suc b) mod 2) = c + (\<Sum>b<Suc k. (n div 2 ^ b) mod 2)"
      by (subst sum.lessThan_Suc_shift) simp
    finally show ?thesis .
  qed
qed

lemma pressCount_sum: "pressCount p n = (\<Sum>b<n. if pressed p b then 1 else 0)"
  by (simp add: pressCount_def interv_sum_list_conv_sum_set_nat atLeast0LessThan)

lemma countBits_pressCount:
  assumes "0 \<le> p" "p < 2 ^ n" "n \<le> 31"
  shows "countBits p = pressCount p n"
proof -
  have "(2::int) ^ n \<le> 2 ^ 31" using assms(3) by (intro power_increasing) simp_all
  with assms have p31: "p < 2 ^ 31" by linarith
  have "countBits p = (\<Sum>b<n. (p div 2 ^ b) mod 2)"
    using countBits_loop_sum[OF assms, of 0] by (simp add: countBits_def)
  also have "\<dots> = (\<Sum>b<n. if pressed p b then 1 else 0)"
  proof (rule sum.cong)
    fix b assume "b \<in> {..<n}"
    then have "b < 32" using assms(3) by simp
    from pressed_small[OF assms(1) p31 this]
    show "(p div 2 ^ b) mod 2 = (if pressed p b then 1 else 0)"
      by (simp add: odd_iff_mod_2_eq_one)
  qed simp
  finally show ?thesis by (simp add: pressCount_sum)
qed

text \<open>The masks that \<open>precomputeParityPatterns\<close> runs through.\<close>

definition masks :: "Machine \<Rightarrow> int list" where
  "masks m = map int [0..<nat (shl32 1 (length (buttons m)))]"

lemma shl32_one_small: "n \<le> 30 \<Longrightarrow> shl32 1 n = 2 ^ n"
proof -
  assume n: "n \<le> 30"
  have a: "- (2 ^ 31) \<le> (2::int) ^ n" by (rule order_trans[of _ 0]) simp_all
  have b: "(2::int) ^ n < 2 ^ 31" using n by (intro power_strict_increasing) simp_all
  have "toInt32 (2 ^ n) = 2 ^ n" using a b by (rule toInt32_small)
  moreover have "toInt32 1 = 1" by (simp add: toInt32_def)
  ultimately show ?thesis using n by (simp add: shl32_def)
qed

lemma shl32_one_31: "shl32 1 31 = - 2147483648"
  by (simp add: shl32_def toInt32_def)

lemma shl32_one_32: "shl32 1 32 = 1"
  by (simp add: shl32_def toInt32_def)

lemma masks_small:
  assumes "length (buttons m) \<le> 30"
  shows "p \<in> set (masks m) \<longleftrightarrow> 0 \<le> p \<and> p < 2 ^ length (buttons m)"
proof -
  have "set (masks m) = int ` {0..<nat (2 ^ length (buttons m))}"
    using assms by (simp add: masks_def shl32_one_small)
  also have "p \<in> \<dots> \<longleftrightarrow> 0 \<le> p \<and> p < 2 ^ length (buttons m)"
  proof
    assume "p \<in> int ` {0..<nat (2 ^ length (buttons m))}"
    then obtain k where k: "p = int k" "k < nat (2 ^ length (buttons m))" by auto
    have "nat ((2::int) ^ length (buttons m)) = 2 ^ length (buttons m)"
      by (simp add: nat_power_eq)
    with k have "int k < 2 ^ length (buttons m)" by (metis of_nat_less_iff of_nat_numeral of_nat_power)
    with k show "0 \<le> p \<and> p < 2 ^ length (buttons m)" by simp
  next
    assume a: "0 \<le> p \<and> p < 2 ^ length (buttons m)"
    then have "nat p < nat (2 ^ length (buttons m))" "p = int (nat p)" by auto
    then show "p \<in> int ` {0..<nat (2 ^ length (buttons m))}"
      by (metis atLeastLessThan_iff image_eqI le0)
  qed
  finally show ?thesis .
qed

lemma pressed_zero: "\<not> pressed 0 b"
  by (simp add: pressed_def and32_one sar32_def toInt32_def)

lemma countBits_zero: "countBits 0 = 0"
  by (simp add: countBits_def countBits_loop.simps)

lemma masks_countBits:
  assumes "length (buttons m) \<le> 32" "p \<in> set (masks m)"
  shows "countBits p = pressCount p (length (buttons m))"
proof -
  consider (small) "length (buttons m) \<le> 30" | (a) "length (buttons m) = 31" | (b) "length (buttons m) = 32"
    using assms(1) by linarith
  then show ?thesis
  proof cases
    case small
    with assms(2) have "0 \<le> p" "p < 2 ^ length (buttons m)" by (simp_all add: masks_small)
    then show ?thesis using small by (intro countBits_pressCount) simp_all
  next
    case a
    with assms(2) show ?thesis by (simp add: masks_def shl32_one_31)
  next
    case b
    with assms(2) have "p = 0" by (simp add: masks_def shl32_one_32)
    then show ?thesis by (simp add: countBits_zero pressCount_def pressed_zero)
  qed
qed

subsection \<open>The pattern table and the cost of a result\<close>

lemma precompute_fold:
  "fold (\<lambda>mask pbp.
        let parity = computeParity mask m n;
            pbp1 = (case pbp parity of None \<Rightarrow> pbp(parity \<mapsto> []) | Some _ \<Rightarrow> pbp)
        in (case pbp1 parity of None \<Rightarrow> pbp1 | Some l \<Rightarrow> pbp1(parity \<mapsto> l @ [mask]))) ms pbp0 par =
   (let l = filter (\<lambda>mask. computeParity mask m n = par) ms
    in case pbp0 par of None \<Rightarrow> (if l = [] then None else Some l) | Some l0 \<Rightarrow> Some (l0 @ l))"
proof (induction ms arbitrary: pbp0)
  case Nil
  then show ?case by (simp split: option.splits)
next
  case (Cons a ms)
  show ?case
    by (simp only: fold_simps Cons.IH) (auto simp: Let_def split: option.splits)
qed

lemma precompute_eq:
  "precomputeParityPatterns m par =
     (let l = filter (\<lambda>mask. computeParity mask m (length (joltage m)) = par) (masks m)
      in if l = [] then None else Some l)"
  unfolding precomputeParityPatterns_def masks_def[symmetric]
  by (simp only: precompute_fold) simp

lemma precompute_Some:
  "precomputeParityPatterns m par = Some ps \<Longrightarrow>
     ps = filter (\<lambda>mask. computeParity mask m (length (joltage m)) = par) (masks m)"
  by (simp add: precompute_eq Let_def split: if_splits)

lemma precompute_mem:
  "p \<in> set (masks m) \<Longrightarrow> computeParity p m (length (joltage m)) = par \<Longrightarrow>
     \<exists>ps. precomputeParityPatterns m par = Some ps \<and> p \<in> set ps \<and> ps \<noteq> []"
  by (auto simp: precompute_eq Let_def filter_empty_conv)

text \<open>The cost of a result is the sum of its press vector.\<close>

definition costOK :: "Result \<Rightarrow> bool" where
  "costOK r = (\<forall>c s. cost r = Some c \<and> solution r = Some s \<longrightarrow> c = sum_list s)"

definition popOK :: "Machine \<Rightarrow> (int \<rightharpoonup> int list) \<Rightarrow> bool" where
  "popOK m pp = (\<forall>par ps p. pp par = Some ps \<and> p \<in> set ps \<longrightarrow> countBits p = pressCount p (length (buttons m)))"

lemma popOK_precompute: "length (buttons m) \<le> 32 \<Longrightarrow> popOK m (precomputeParityPatterns m)"
  unfolding popOK_def using masks_countBits precompute_Some
  by (metis filter_is_subset subsetD)

lemma costOK_unsolvable [simp]: "costOK unsolvable"
  by (simp add: costOK_def unsolvable_def)

lemma costOK_better:
  assumes "sound m nt sub" "costOK sub" "costOK best" "countBits p = pressCount p (length (buttons m))"
  shows "costOK (better p sub best)"
proof (cases "cost sub")
  case None
  then show ?thesis using assms(3) by (simp add: better_def)
next
  case (Some c)
  with assms(1) obtain s where s: "solution sub = Some s" "satisfies m nt s"
    by (auto simp: sound_def split: option.splits)
  then have len: "length s = length (buttons m)" by (simp add: satisfies_def)
  from assms(2) Some s(1) have c: "c = sum_list s" by (simp add: costOK_def)
  have "countBits p + 2 * c = sum_list (combineSolution p s)"
    using c len assms(4) by (simp add: sum_list_combine)
  then show ?thesis using Some s(1) assms(3)
    by (auto simp: better_def costOK_def Let_def split: option.splits)
qed

lemma costOK_fold:
  assumes "\<And>p nt. p \<in> set ps \<Longrightarrow> applyPattern p tgt m = Some nt \<Longrightarrow> costOK (solveNoMemo m pp nt)"
    and "\<And>p. p \<in> set ps \<Longrightarrow> countBits p = pressCount p (length (buttons m))"
    and "costOK best"
  shows "costOK (fold (pureStep m pp tgt) ps best)"
  using assms
proof (induction ps arbitrary: best)
  case Nil
  then show ?case by simp
next
  case (Cons p ps)
  have "costOK (pureStep m pp tgt p best)"
  proof (cases "applyPattern p tgt m")
    case None
    then show ?thesis using Cons.prems(3) by (simp add: pureStep_def)
  next
    case (Some nt)
    with Cons.prems(1)[of p nt] have a: "costOK (solveNoMemo m pp nt)" by simp
    have b: "countBits p = pressCount p (length (buttons m))" using Cons.prems(2)[of p] by simp
    from costOK_better[OF solveNoMemo_sound a Cons.prems(3) b] Some
    show ?thesis by (simp add: pureStep_def)
  qed
  moreover have "\<And>q nt. q \<in> set ps \<Longrightarrow> applyPattern q tgt m = Some nt \<Longrightarrow> costOK (solveNoMemo m pp nt)"
    using Cons.prems(1) by (meson list.set_intros(2))
  moreover have "\<And>q. q \<in> set ps \<Longrightarrow> countBits q = pressCount q (length (buttons m))"
    using Cons.prems(2) by (meson list.set_intros(2))
  ultimately show ?case using Cons.IH by simp
qed

lemma sum_list_replicate_zero: "sum_list (replicate n (0::int)) = 0"
  by (induction n) simp_all

lemma solveNoMemo_costOK:
  assumes "popOK m pp"
  shows "costOK (solveNoMemo m pp tgt)"
proof (induction "sum_list (map nat tgt)" arbitrary: tgt rule: less_induct)
  case less
  show ?case
  proof (cases "list_all (\<lambda>v. v = 0) tgt")
    case True
    then show ?thesis
      by (simp add: solveNoMemo_unfold baseResult_def costOK_def sum_list_replicate_zero)
  next
    case nz: False
    show ?thesis
    proof (cases "pp (targetParity tgt)")
      case None
      then show ?thesis using nz by (simp add: solveNoMemo_unfold)
    next
      case (Some ps)
      have "costOK (fold (pureStep m pp tgt) ps unsolvable)"
      proof (rule costOK_fold)
        fix p nt assume "applyPattern p tgt m = Some nt"
        then have "sum_list (map nat nt) < sum_list (map nat tgt)"
          using applyPattern_decreases nz by blast
        then show "costOK (solveNoMemo m pp nt)" by (rule less.hyps)
      next
        fix p assume "p \<in> set ps"
        with Some assms show "countBits p = pressCount p (length (buttons m))"
          unfolding popOK_def by blast
      qed simp
      then show ?thesis using nz Some by (simp add: solveNoMemo_unfold)
    qed
  qed
qed

subsection \<open>The recursion finds a cheapest press vector\<close>

lemma parity_mask_exists:
  assumes "length q \<le> 30"
  shows "\<exists>p. 0 \<le> p \<and> p < 2 ^ length q \<and> (\<forall>b<length q. pressed p b = odd (q ! b))"
proof -
  define p :: int where "p = horner_sum of_bool 2 (map odd q)"
  have nn: "0 \<le> p" unfolding p_def by (rule horner_sum_nonnegative)
  have "p < 2 ^ length (map odd q)" unfolding p_def by (rule horner_sum_bound)
  then have lt: "p < 2 ^ length q" by simp
  have "(2::int) ^ length q < 2 ^ 31" using assms by (intro power_strict_increasing) simp_all
  with lt have p31: "p < 2 ^ 31" by linarith
  have "\<forall>b<length q. pressed p b = odd (q ! b)"
  proof (intro allI impI)
    fix b assume b: "b < length q"
    then have "b < 32" using assms by simp
    from pressed_small[OF nn p31 this] have "pressed p b = bit p b" by (simp add: bit_iff_odd)
    also have "\<dots> = odd (q ! b)" using b by (simp add: p_def bit_horner_sum_bit_iff)
    finally show "pressed p b = odd (q ! b)" .
  qed
  with nn lt show ?thesis by blast
qed

lemma applyStep_fold_complete:
  assumes "\<forall>j<n. countTouching p m j \<le> tgt ! j \<and> even (tgt ! j - countTouching p m j)"
  shows "fold (applyStep p tgt m) [0..<n] (Some []) =
           Some (map (\<lambda>j. (tgt ! j - countTouching p m j) div 2) [0..<n])"
  using assms
proof (induction n)
  case 0
  then show ?case by simp
next
  case (Suc n)
  then have ih: "fold (applyStep p tgt m) [0..<n] (Some []) =
           Some (map (\<lambda>j. (tgt ! j - countTouching p m j) div 2) [0..<n])" by simp
  from Suc.prems have "countTouching p m n \<le> tgt ! n" "even (tgt ! n - countTouching p m n)" by simp_all
  then have "\<not> tgt ! n - countTouching p m n < 0" "(tgt ! n - countTouching p m n) mod 2 \<noteq> 1"
    by (simp_all add: even_iff_mod_2_eq_zero)
  then have "applyStep p tgt m n (Some (map (\<lambda>j. (tgt ! j - countTouching p m j) div 2) [0..<n])) =
          Some (map (\<lambda>j. (tgt ! j - countTouching p m j) div 2) [0..<n] @ [(tgt ! n - countTouching p m n) div 2])"
    by (simp add: applyStep_def Let_def and32_one)
  then show ?case using ih by simp
qed

lemma applyPattern_complete:
  assumes "\<forall>j<length tgt. countTouching p m j \<le> tgt ! j \<and> even (tgt ! j - countTouching p m j)"
  shows "applyPattern p tgt m = Some (map (\<lambda>j. (tgt ! j - countTouching p m j) div 2) [0..<length tgt])"
  unfolding applyPattern_def using assms by (rule applyStep_fold_complete)

lemma computeParity_targetParity:
  assumes "\<forall>j<length tgt. countTouching p m j mod 2 = tgt ! j mod 2"
  shows "computeParity p m (length tgt) = targetParity tgt"
  unfolding computeParity_def targetParity_def
  by (rule fold_cong) (use assms in \<open>simp_all add: and32_one\<close>)

lemma counterSum_halve:
  assumes len: "length q = length (buttons m)"
    and pr: "\<forall>b<length q. pressed p b = odd (q ! b)"
  shows "counterSum m q j = 2 * counterSum m (map (\<lambda>v. v div 2) q) j + countTouching p m j"
proof -
  let ?B = "length (buttons m)"
  let ?inc = "\<lambda>b. includes_idx (buttons m ! b) j"
  have "counterSum m q j =
      sum_list (map (\<lambda>b. 2 * (if ?inc b then map (\<lambda>v. v div 2) q ! b else 0)
                           + (if pressed p b \<and> ?inc b then 1 else 0)) [0..<?B])"
    unfolding counterSum_def
  proof (rule sum_list_upt_cong)
    fix b assume b: "b < ?B"
    then have "pressed p b = odd (q ! b)" using pr len by simp
    moreover have "q ! b = 2 * (q ! b div 2) + (if odd (q ! b) then 1 else 0)" by presburger
    ultimately show "(if ?inc b then q ! b else 0) =
        2 * (if ?inc b then map (\<lambda>v. v div 2) q ! b else 0) + (if pressed p b \<and> ?inc b then 1 else 0)"
      using b len by simp
  qed
  also have "\<dots> = 2 * sum_list (map (\<lambda>b. if ?inc b then map (\<lambda>v. v div 2) q ! b else 0) [0..<?B])
      + sum_list (map (\<lambda>b. if pressed p b \<and> ?inc b then 1 else 0) [0..<?B])"
    by (simp add: sum_list_addf sum_list_const_mult)
  finally show ?thesis by (simp add: counterSum_def countTouching_sum)
qed

lemma sum_list_halve:
  assumes pr: "\<forall>b<length q. pressed p b = odd (q ! b)"
  shows "sum_list q = 2 * sum_list (map (\<lambda>v. v div 2) q) + pressCount p (length q)"
proof -
  have "sum_list q = sum_list (map (\<lambda>b. q ! b) [0..<length q])"
    by (rule sum_list_nth_upt)
  also have "\<dots> = sum_list (map (\<lambda>b. 2 * (map (\<lambda>v. v div 2) q ! b) + (if pressed p b then 1 else 0)) [0..<length q])"
  proof (rule sum_list_upt_cong)
    fix b assume b: "b < length q"
    then have "pressed p b = odd (q ! b)" using pr by simp
    moreover have "q ! b = 2 * (q ! b div 2) + (if odd (q ! b) then 1 else 0)" by presburger
    ultimately show "q ! b = 2 * (map (\<lambda>v. v div 2) q ! b) + (if pressed p b then 1 else 0)"
      using b by simp
  qed
  also have "\<dots> = 2 * sum_list (map (\<lambda>b. map (\<lambda>v. v div 2) q ! b) [0..<length q]) + pressCount p (length q)"
    by (simp add: sum_list_addf sum_list_const_mult pressCount_def)
  also have "sum_list (map (\<lambda>b. map (\<lambda>v. v div 2) q ! b) [0..<length q]) = sum_list (map (\<lambda>v. v div 2) q)"
    using sum_list_nth_upt[of "map (\<lambda>v. v div 2) q"] by simp
  finally show ?thesis .
qed

lemma counterSum_nonneg:
  assumes "length q = length (buttons m)" "\<forall>b<length q. 0 \<le> q ! b"
  shows "0 \<le> counterSum m q j"
  unfolding counterSum_def
  by (rule sum_list_nonneg) (use assms in auto)

text \<open>A result that is solved, at a cost of at most \<open>n\<close>.\<close>

definition atMost :: "Result \<Rightarrow> int \<Rightarrow> bool" where
  "atMost r n = (\<exists>c. cost r = Some c \<and> c \<le> n)"

lemma atMost_better_keep: "atMost best n \<Longrightarrow> atMost (better p sub best) n"
  by (auto simp: atMost_def better_def Let_def split: option.splits)

lemma atMost_better_new:
  "cost sub = Some c \<Longrightarrow> solution sub = Some s \<Longrightarrow> atMost (better p sub best) (countBits p + 2 * c)"
  by (auto simp: atMost_def better_def Let_def split: option.splits)

lemma atMost_pureStep_keep: "atMost best n \<Longrightarrow> atMost (pureStep m pp tgt p best) n"
  by (simp add: pureStep_def atMost_better_keep split: option.splits)

lemma atMost_fold_keep: "atMost best n \<Longrightarrow> atMost (fold (pureStep m pp tgt) ps best) n"
  by (induction ps arbitrary: best) (simp_all add: atMost_pureStep_keep)

lemma atMost_fold:
  assumes "p \<in> set ps" "applyPattern p tgt m = Some nt"
    "cost (solveNoMemo m pp nt) = Some c" "solution (solveNoMemo m pp nt) = Some s"
  shows "atMost (fold (pureStep m pp tgt) ps best) (countBits p + 2 * c)"
proof -
  from split_list[OF assms(1)] obtain pre post where ps: "ps = pre @ p # post" by blast
  have "atMost (pureStep m pp tgt p (fold (pureStep m pp tgt) pre best)) (countBits p + 2 * c)"
    using assms(2-4) by (simp add: pureStep_def atMost_better_new)
  then show ?thesis unfolding ps by (simp add: atMost_fold_keep)
qed

lemma atMost_mono: "atMost r a \<Longrightarrow> a \<le> b \<Longrightarrow> atMost r b"
  by (auto simp: atMost_def)

lemma solveNoMemo_complete:
  assumes B: "length (buttons m) \<le> 30"
  shows "length tgt = length (joltage m) \<Longrightarrow> satisfies m tgt q \<Longrightarrow>
           atMost (solveNoMemo m (precomputeParityPatterns m) tgt) (sum_list q)"
proof (induction "sum_list (map nat tgt)" arbitrary: tgt q rule: less_induct)
  case less
  let ?pp = "precomputeParityPatterns m"
  from less.prems(2) have len: "length q = length (buttons m)" and nn: "\<forall>b<length q. 0 \<le> q ! b"
    and cs: "\<forall>i<length tgt. counterSum m q i = tgt ! i" by (simp_all add: satisfies_def)
  have qsum: "0 \<le> sum_list q" using nn by (intro sum_list_nonneg) (metis in_set_conv_nth)
  show ?case
  proof (cases "list_all (\<lambda>v. v = 0) tgt")
    case True
    then show ?thesis using qsum by (simp add: solveNoMemo_unfold baseResult_def atMost_def)
  next
    case nz: False
    from parity_mask_exists[of q] B len obtain p where p0: "0 \<le> p" and plt: "p < 2 ^ length (buttons m)"
      and pr: "\<forall>b<length q. pressed p b = odd (q ! b)" by auto
    let ?y = "map (\<lambda>v. v div 2) q"
    have leny: "length ?y = length (buttons m)" using len by simp
    have nny: "\<forall>b<length ?y. 0 \<le> ?y ! b" using nn by simp
    have eq: "\<And>j. j < length tgt \<Longrightarrow> tgt ! j = 2 * counterSum m ?y j + countTouching p m j"
      using counterSum_halve[OF len pr] cs by simp
    have ynn: "\<And>j. 0 \<le> counterSum m ?y j" using counterSum_nonneg[OF leny nny] .
    have cond: "\<forall>j<length tgt. countTouching p m j \<le> tgt ! j \<and> even (tgt ! j - countTouching p m j)"
    proof (intro allI impI)
      fix j assume "j < length tgt"
      from eq[OF this] ynn[of j]
      show "countTouching p m j \<le> tgt ! j \<and> even (tgt ! j - countTouching p m j)" by simp
    qed
    define nt where "nt = map (\<lambda>j. (tgt ! j - countTouching p m j) div 2) [0..<length tgt]"
    from applyPattern_complete[OF cond] have ap: "applyPattern p tgt m = Some nt" by (simp add: nt_def)
    have ntj: "\<And>j. j < length tgt \<Longrightarrow> nt ! j = counterSum m ?y j"
      using eq by (simp add: nt_def)
    have lnt: "length nt = length (joltage m)" using less.prems(1) by (simp add: nt_def)
    have saty: "satisfies m nt ?y"
      unfolding satisfies_def using leny nny ntj by (simp add: nt_def)
    have dec: "sum_list (map nat nt) < sum_list (map nat tgt)"
      using applyPattern_decreases[OF ap nz] .
    from less.hyps[OF dec lnt saty] obtain c where c: "cost (solveNoMemo m ?pp nt) = Some c"
      "c \<le> sum_list ?y" by (auto simp: atMost_def)
    from solveNoMemo_sound[of m nt ?pp] c(1) obtain s where s: "solution (solveNoMemo m ?pp nt) = Some s"
      by (auto simp: sound_def split: option.splits)
    have par: "\<forall>j<length tgt. countTouching p m j mod 2 = tgt ! j mod 2"
    proof (intro allI impI)
      fix j assume "j < length tgt"
      from eq[OF this] show "countTouching p m j mod 2 = tgt ! j mod 2" by presburger
    qed
    have "computeParity p m (length (joltage m)) = targetParity tgt"
      using computeParity_targetParity[OF par] less.prems(1) by simp
    moreover have "p \<in> set (masks m)" using p0 plt B by (simp add: masks_small)
    ultimately obtain ps where ps: "?pp (targetParity tgt) = Some ps" "p \<in> set ps" "ps \<noteq> []"
      using precompute_mem by blast
    have "atMost (fold (pureStep m ?pp tgt) ps unsolvable) (countBits p + 2 * c)"
      using atMost_fold[OF ps(2) ap c(1) s] .
    moreover have "countBits p = pressCount p (length (buttons m))"
      using countBits_pressCount[OF p0 plt] B by simp
    moreover have "sum_list q = 2 * sum_list ?y + pressCount p (length q)"
      using sum_list_halve[OF pr] .
    ultimately have "atMost (fold (pureStep m ?pp tgt) ps unsolvable) (countBits p + 2 * c)"
      and "countBits p + 2 * c \<le> sum_list q"
      using c(2) len by simp_all
    then have "atMost (fold (pureStep m ?pp tgt) ps unsolvable) (sum_list q)"
      by (rule atMost_mono)
    then show ?thesis using nz ps by (simp add: solveNoMemo_unfold)
  qed
qed

subsection \<open>The recursion with a bound on its depth\<close>

fun solveBounded ::
  "nat \<Rightarrow> Machine \<Rightarrow> (int \<rightharpoonup> int list) \<Rightarrow> int list \<Rightarrow> (string \<rightharpoonup> Result) \<Rightarrow> (Result \<times> (string \<rightharpoonup> Result)) option" where
  "solveBounded 0 m parityPatterns tgt memo = None"
| "solveBounded (Suc depth) m parityPatterns tgt memo =
     (if list_all (\<lambda>v. v = 0) tgt
      then Some (\<lparr>cost = Some 0, solution = Some (replicate (length (buttons m)) 0)\<rparr>, memo)
      else
        let key = memoKey tgt in
        case memo key of
          Some r \<Rightarrow> Some (r, memo)
        | None \<Rightarrow>
            (case parityPatterns (targetParity tgt) of
               None \<Rightarrow> Some (unsolvable, memo(key \<mapsto> unsolvable))
             | Some patterns \<Rightarrow>
                 if patterns = [] then Some (unsolvable, memo(key \<mapsto> unsolvable))
                 else
                   (case fold (\<lambda>pattern acc.
                                 case acc of
                                   None \<Rightarrow> None
                                 | Some (bestResult, memo1) \<Rightarrow>
                                     (case applyPattern pattern tgt m of
                                        None \<Rightarrow> Some (bestResult, memo1)
                                      | Some newTarget \<Rightarrow>
                                          (case solveBounded depth m parityPatterns newTarget memo1 of
                                             None \<Rightarrow> None
                                           | Some (subResult, memo2) \<Rightarrow>
                                               Some (better pattern subResult bestResult, memo2))))
                           patterns (Some (unsolvable, memo)) of
                      None \<Rightarrow> None
                    | Some (bestResult, memo') \<Rightarrow> Some (bestResult, memo'(key \<mapsto> bestResult)))))"

declare solveBounded.simps(2) [simp del]

definition boundedStep ::
  "nat \<Rightarrow> Machine \<Rightarrow> (int \<rightharpoonup> int list) \<Rightarrow> int list \<Rightarrow> int \<Rightarrow> (Result \<times> (string \<rightharpoonup> Result)) option
     \<Rightarrow> (Result \<times> (string \<rightharpoonup> Result)) option" where
  "boundedStep depth m parityPatterns tgt pattern acc =
     (case acc of
        None \<Rightarrow> None
      | Some (bestResult, memo1) \<Rightarrow>
          (case applyPattern pattern tgt m of
             None \<Rightarrow> Some (bestResult, memo1)
           | Some newTarget \<Rightarrow>
               (case solveBounded depth m parityPatterns newTarget memo1 of
                  None \<Rightarrow> None
                | Some (subResult, memo2) \<Rightarrow> Some (better pattern subResult bestResult, memo2))))"

lemma solveBounded_unfold:
  "solveBounded (Suc depth) m pp tgt memo =
     (if list_all (\<lambda>v. v = 0) tgt then Some (baseResult m, memo)
      else case memo (memoKey tgt) of
          Some r \<Rightarrow> Some (r, memo)
        | None \<Rightarrow>
            (case pp (targetParity tgt) of
               None \<Rightarrow> Some (unsolvable, memo(memoKey tgt \<mapsto> unsolvable))
             | Some patterns \<Rightarrow>
                 if patterns = [] then Some (unsolvable, memo(memoKey tgt \<mapsto> unsolvable))
                 else (case fold (boundedStep depth m pp tgt) patterns (Some (unsolvable, memo)) of
                         None \<Rightarrow> None
                       | Some (bestResult, memo') \<Rightarrow> Some (bestResult, memo'(memoKey tgt \<mapsto> bestResult)))))"
  by (subst solveBounded.simps)
    (simp add: boundedStep_def[abs_def] baseResult_def Let_def split: option.splits)

lemma boundedStep_fold:
  assumes "\<And>p nt mem. p \<in> set ps \<Longrightarrow> applyPattern p tgt m = Some nt \<Longrightarrow>
             solveBounded d m pp nt mem = Some (solveRecursive m pp nt mem)"
  shows "fold (boundedStep d m pp tgt) ps (Some acc) = Some (fold (memoStep m pp tgt) ps acc)"
  using assms
proof (induction ps arbitrary: acc)
  case Nil
  then show ?case by simp
next
  case (Cons p ps)
  obtain best mem where acc: "acc = (best, mem)" by (cases acc)
  have "boundedStep d m pp tgt p (Some acc) = Some (memoStep m pp tgt p acc)"
  proof (cases "applyPattern p tgt m")
    case None
    then show ?thesis by (simp add: boundedStep_def memoStep_def acc)
  next
    case (Some nt)
    with Cons.prems[of p nt mem] have "solveBounded d m pp nt mem = Some (solveRecursive m pp nt mem)"
      by simp
    with Some show ?thesis
      by (simp add: boundedStep_def memoStep_def acc split: prod.splits)
  qed
  moreover have "\<And>q nt mem. q \<in> set ps \<Longrightarrow> applyPattern q tgt m = Some nt \<Longrightarrow>
             solveBounded d m pp nt mem = Some (solveRecursive m pp nt mem)"
    using Cons.prems by (meson list.set_intros(2))
  ultimately show ?case using Cons.IH by simp
qed

lemma solveBounded_from_calls:
  assumes "\<And>p nt mem. \<not> list_all (\<lambda>v. v = 0) tgt \<Longrightarrow> applyPattern p tgt m = Some nt \<Longrightarrow>
             solveBounded d m pp nt mem = Some (solveRecursive m pp nt mem)"
  shows "solveBounded (Suc d) m pp tgt memo = Some (solveRecursive m pp tgt memo)"
proof (cases "list_all (\<lambda>v. v = 0) tgt")
  case True
  then show ?thesis by (simp add: solveBounded_unfold solveRecursive_unfold)
next
  case False
  have "\<And>ps acc. fold (boundedStep d m pp tgt) ps (Some acc) = Some (fold (memoStep m pp tgt) ps acc)"
    by (rule boundedStep_fold) (rule assms[OF False])
  then show ?thesis
    by (simp add: solveBounded_unfold solveRecursive_unfold split: option.splits prod.splits)
qed

lemma applyPattern_half:
  assumes "applyPattern p tgt m = Some nt" "j < length tgt"
  shows "0 \<le> nt ! j \<and> nt ! j \<le> tgt ! j div 2"
proof -
  from applyPattern_Some[OF assms(1)] assms(2)
  have "0 \<le> nt ! j" "tgt ! j = 2 * (nt ! j) + countTouching p m j" by simp_all
  then show ?thesis using countTouching_nonneg[of p m j] by linarith
qed

lemma solveBounded_enough:
  "(\<forall>v\<in>set tgt. v < 2 ^ k) \<Longrightarrow> solveBounded (Suc k) m pp tgt memo = Some (solveRecursive m pp tgt memo)"
proof (induction k arbitrary: tgt memo)
  case 0
  show ?case
  proof (rule solveBounded_from_calls)
    fix p nt mem
    assume nz: "\<not> list_all (\<lambda>v. v = 0) tgt" and ap: "applyPattern p tgt m = Some nt"
    from nz obtain j where j: "j < length tgt" "tgt ! j \<noteq> 0" by (auto simp: list_all_length)
    with 0 have "tgt ! j < 0" by (metis less_le nth_mem power_0 zle_diff1_eq diff_self)
    moreover from applyPattern_half[OF ap j(1)] have "0 \<le> tgt ! j div 2" by linarith
    ultimately have False by simp
    then show "solveBounded 0 m pp nt mem = Some (solveRecursive m pp nt mem)" ..
  qed
next
  case (Suc k)
  show ?case
  proof (rule solveBounded_from_calls)
    fix p nt mem
    assume ap: "applyPattern p tgt m = Some nt"
    have "\<forall>v\<in>set nt. v < 2 ^ k"
    proof
      fix v assume "v \<in> set nt"
      then obtain j where j: "j < length nt" "v = nt ! j" by (metis in_set_conv_nth)
      from applyPattern_Some[OF ap] j(1) have jt: "j < length tgt" by simp
      with Suc.prems have "tgt ! j < 2 ^ Suc k" by simp
      then have "tgt ! j div 2 < 2 ^ k" by simp
      with applyPattern_half[OF ap jt] j(2) show "v < 2 ^ k" by linarith
    qed
    then show "solveBounded (Suc k) m pp nt mem = Some (solveRecursive m pp nt mem)"
      by (rule Suc.IH)
  qed
qed


lemma solveMachineJoltage_noMemo:
  "solveMachineJoltage m =
     (if length (joltage m) = 0 then Some (replicate (length (buttons m)) 0)
      else solution (solveNoMemo m (precomputeParityPatterns m) (joltage m)))"
  using solveRecursive_memo[OF memo_ok_empty, of m "precomputeParityPatterns m" "joltage m"]
  by (simp add: solveMachineJoltage_def)

lemma solveMachineJoltage_sound:
  assumes "solveMachineJoltage m = Some s"
  shows "satisfies m (joltage m) s"
proof (cases "length (joltage m) = 0")
  case True
  then have "list_all (\<lambda>v. v = 0) (joltage m)" by simp
  from satisfies_zero[OF this, of m] assms True show ?thesis
    by (simp add: solveMachineJoltage_def)
next
  case False
  with assms have "solution (solveNoMemo m (precomputeParityPatterns m) (joltage m)) = Some s"
    by (simp add: solveMachineJoltage_noMemo)
  with solveNoMemo_sound[of m "joltage m" "precomputeParityPatterns m"] show ?thesis
    by (auto simp: sound_def split: option.splits)
qed

section \<open>Claims about the parity reduction solver\<close>

subsection \<open>Machines used as concrete instances\<close>

definition mW :: Machine where
  "mW = \<lparr>target = [True, False], buttons = [[0], [0, 1]], joltage = [3, 2]\<rparr>"

definition m31 :: Machine where
  "m31 = \<lparr>target = [True], buttons = replicate 31 [0], joltage = [1]\<rparr>"

definition m33 :: Machine where
  "m33 = \<lparr>target = [True], buttons = replicate 33 [0], joltage = [2]\<rparr>"


lemma mW_fields: "length (buttons mW) = 2" "joltage mW = [3, 2]" "buttons mW = [[0], [0, 1]]"
  by (simp_all add: mW_def)

lemma mW_solution: "solveMachineJoltage mW = Some [1, 2]"
  by code_simp

lemma mW_apply: "applyPattern 1 [3, 2] mW = Some [1, 1]"
  by code_simp

text \<open>
  \<^bold>\<open>C9.\<close> The memo table does not change results. Started on the empty table, or on any
  table whose entries are the results of the recursion without a table (which is what
  every table built by earlier calls is), \<open>solveRecursive\<close> returns the Result of the same
  recursion run without a table, and leaves such a table behind.
\<close>

theorem memo_transparent:
  "fst (solveRecursive m pp tgt Map.empty) = solveNoMemo m pp tgt \<and>
   (memo_ok m pp memo \<longrightarrow>
      fst (solveRecursive m pp tgt memo) = solveNoMemo m pp tgt \<and>
      memo_ok m pp (snd (solveRecursive m pp tgt memo)))"
  using solveRecursive_memo[of m pp Map.empty tgt] solveRecursive_memo[of m pp memo tgt] memo_ok_empty
  by blast

theorem memo_transparent_witness:
  "memo_ok mW (precomputeParityPatterns mW) (snd (solveRecursive mW (precomputeParityPatterns mW) [1, 1] Map.empty)) \<and>
   fst (solveRecursive mW (precomputeParityPatterns mW) [3, 2]
          (snd (solveRecursive mW (precomputeParityPatterns mW) [1, 1] Map.empty)))
     = solveNoMemo mW (precomputeParityPatterns mW) [3, 2]"
proof -
  have ok: "memo_ok mW (precomputeParityPatterns mW)
      (snd (solveRecursive mW (precomputeParityPatterns mW) [1, 1] Map.empty))"
    using solveRecursive_memo[OF memo_ok_empty] by blast
  with memo_transparent[of mW "precomputeParityPatterns mW" "[3, 2]"
      "snd (solveRecursive mW (precomputeParityPatterns mW) [1, 1] Map.empty)"]
  show ?thesis by blast
qed

lemma mW_result: "fst (solveRecursive mW (precomputeParityPatterns mW) [3, 2] Map.empty) = \<lparr>cost = Some 3, solution = Some [1, 2]\<rparr>"
  by code_simp

lemma m33_len: "length (buttons m33) = 33" "joltage m33 = [2]" "length (joltage m33) = 1"
  by (simp_all add: m33_def)

lemma upt2: "map int [0..<2] = [0, 1]"
  by code_simp

lemma filter_mod32: "filter (\<lambda>b. b mod 32 = 0) [0..<33] = [0, 32]"
  by code_simp

lemma m33_masks: "masks m33 = [0, 1]"
  by (simp add: masks_def m33_len shl32_def toInt32_def upt2)

lemma pressed_one: "pressed 1 b = (b mod 32 = 0)"
proof -
  have "toInt32 1 = 1" by (simp add: toInt32_def)
  then have "pressed 1 b = odd ((1::int) div 2 ^ (b mod 32))"
    by (simp add: pressed_def and32_one sar32_def odd_iff_mod_2_eq_one)
  also have "\<dots> = (b mod 32 = 0)"
    by (cases "b mod 32 = 0") (simp_all add: div_pos_pos_trivial)
  finally show ?thesis .
qed

lemma m33_includes: "b < 33 \<Longrightarrow> includes_idx (buttons m33 ! b) 0"
  by (simp add: m33_def includes_idx_def)

lemma m33_count0: "countTouching 0 m33 0 = 0"
  by (simp add: countTouching_eq pressed_zero)

lemma m33_count1: "countTouching 1 m33 0 = 2"
proof -
  have "filter (\<lambda>b. pressed 1 b \<and> includes_idx (buttons m33 ! b) 0) [0..<33] = filter (\<lambda>b. b mod 32 = 0) [0..<33]"
    by (rule filter_cong) (simp_all add: pressed_one m33_includes)
  then show ?thesis by (simp add: countTouching_eq m33_len filter_mod32)
qed

lemma m33_parity:
  "computeParity 0 m33 (length (joltage m33)) = 0" "computeParity 1 m33 (length (joltage m33)) = 0"
  by (simp_all add: computeParity_def m33_len m33_count0 m33_count1 and32_one)

lemma m33_patterns: "precomputeParityPatterns m33 0 = Some [0, 1]" "precomputeParityPatterns m33 1 = None"
  by (simp_all add: precompute_eq m33_masks m33_parity)

lemma parity_small: "targetParity [2] = 0" "targetParity [1] = 1"
  by (simp_all add: targetParity_def and32_one or32_def shl32_def toInt32_def)

lemma m33_apply: "applyPattern 0 [2] m33 = Some [1]" "applyPattern 1 [2] m33 = Some [0]"
  by (simp_all add: applyPattern_def applyStep_def m33_count0 m33_count1 and32_one)

lemma countBits_one: "countBits 1 = 1"
  by (simp add: countBits_def countBits_loop.simps and32_one sar32_def toInt32_def)

lemma m33_sub1: "solveNoMemo m33 (precomputeParityPatterns m33) [1] = unsolvable"
  by (subst solveNoMemo_unfold) (simp add: parity_small m33_patterns)

lemma m33_sub0: "solveNoMemo m33 (precomputeParityPatterns m33) [0] = baseResult m33"
  by (subst solveNoMemo_unfold) simp

lemma m33_result: "solveNoMemo m33 (precomputeParityPatterns m33) [2] =
   \<lparr>cost = Some 1, solution = Some (combineSolution 1 (replicate 33 0))\<rparr>"
  by (subst solveNoMemo_unfold)
    (simp add: parity_small m33_patterns pureStep_def m33_apply m33_sub1 m33_sub0 better_def
      unsolvable_def baseResult_def countBits_one m33_len)

lemma m33_sum: "sum_list (combineSolution 1 (replicate 33 0)) = 2"
proof -
  have "pressCount 1 33 = int (length (filter (\<lambda>b. b mod 32 = 0) [0..<33]))"
    by (simp add: pressCount_def pressed_one length_filter_sum)
  then show ?thesis by (simp add: sum_list_combine sum_list_replicate_zero filter_mod32)
qed

lemma m31_fields: "length (buttons m31) = 31" "joltage m31 = [1]" "buttons m31 = replicate 31 [0]"
  by (simp_all add: m31_def)

lemma m31_masks: "masks m31 = []"
  by (simp add: masks_def m31_fields shl32_one_31)

lemma m31_patterns: "precomputeParityPatterns m31 par = None"
  by (simp add: precompute_eq m31_masks)

lemma m31_unsolved: "solveMachineJoltage m31 = None"
  by (simp add: solveMachineJoltage_def solveRecursive_unfold m31_patterns unsolvable_def m31_fields)

lemma m31_satisfied: "satisfies m31 (joltage m31) (1 # replicate 30 0)"
proof -
  let ?q = "1 # replicate 30 (0::int)"
  have "counterSum m31 ?q 0 = sum_list (map (\<lambda>b. ?q ! b) [0..<length ?q])"
    unfolding counterSum_def m31_fields
    by simp (rule sum_list_upt_cong, simp add: includes_idx_def)
  also have "\<dots> = sum_list ?q" by (rule sum_list_nth_upt[symmetric])
  also have "\<dots> = 1" by (simp add: sum_list_replicate_zero)
  finally have "counterSum m31 ?q 0 = 1" .
  moreover have "\<forall>b<31. 0 \<le> ?q ! b" by (simp add: nth_Cons')
  ultimately show ?thesis by (simp add: satisfies_def m31_fields)
qed

text \<open>
  \<^bold>\<open>C5.\<close> The recursion terminates (the model is a total function, by the decreasing sum
  of the target). Each recursive call is on a target whose entries are non-negative and at
  most half the caller's, so the largest entry at most halves; and when every entry is
  below \<open>2 ^ k\<close>, a depth of \<open>k + 1\<close> nested calls is enough: the recursion cut off at
  that depth returns what \<open>solveRecursive\<close> returns.
\<close>

theorem recursion_depth:
  "(applyPattern pattern tgt m = Some newTarget \<longrightarrow>
      (\<forall>j<length tgt. 0 \<le> newTarget ! j \<and> newTarget ! j \<le> tgt ! j div 2) \<and>
      (tgt \<noteq> [] \<longrightarrow> Max (set newTarget) \<le> Max (set tgt) div 2)) \<and>
   ((\<forall>v\<in>set tgt. v < 2 ^ k) \<longrightarrow>
      solveBounded (Suc k) m pp tgt memo = Some (solveRecursive m pp tgt memo))"
proof (intro conjI impI)
  assume ap: "applyPattern pattern tgt m = Some newTarget"
  show "\<forall>j<length tgt. 0 \<le> newTarget ! j \<and> newTarget ! j \<le> tgt ! j div 2"
    using applyPattern_half[OF ap] by simp
  assume ne: "tgt \<noteq> []"
  from applyPattern_Some[OF ap] have len: "length newTarget = length tgt" by simp
  with ne have ne': "newTarget \<noteq> []" by auto
  then have "Max (set newTarget) \<in> set newTarget" by (intro Max_in) simp_all
  then obtain j where j: "j < length newTarget" "Max (set newTarget) = newTarget ! j"
    by (metis in_set_conv_nth)
  with len have jt: "j < length tgt" by simp
  then have "tgt ! j \<le> Max (set tgt)" by (intro Max_ge) simp_all
  then have "tgt ! j div 2 \<le> Max (set tgt) div 2" by (rule zdiv_mono1) simp
  with applyPattern_half[OF ap jt] j(2) show "Max (set newTarget) \<le> Max (set tgt) div 2"
    by linarith
next
  assume "\<forall>v\<in>set tgt. v < 2 ^ k"
  then show "solveBounded (Suc k) m pp tgt memo = Some (solveRecursive m pp tgt memo)"
    by (rule solveBounded_enough)
qed

theorem recursion_depth_witness:
  "applyPattern 1 [3, 2] mW = Some [1, 1] \<and> Max (set [1, 1::int]) \<le> Max (set [3, 2]) div 2 \<and>
   list_all (\<lambda>v. v < 2 ^ 2) [3, 2::int] \<and>
   solveBounded 3 mW (precomputeParityPatterns mW) [3, 2] Map.empty
     = Some (solveRecursive mW (precomputeParityPatterns mW) [3, 2] Map.empty)"
  using recursion_depth[of 1 "[3, 2]" mW "[1, 1]" 2 "precomputeParityPatterns mW" Map.empty] mW_apply
  by (simp add: numeral_3_eq_3)















section \<open>The toggle solver and the batch aggregator\<close>

text \<open>
  \<open>solveMachineLights\<close> returns a JavaScript number: \<open>-1\<close> for an inconsistent system, and
  otherwise \<open>minPresses\<close>, which starts at \<open>Infinity\<close> and is lowered by every trial of
  the enumeration. The type \<open>jsnum\<close> keeps \<open>Infinity\<close> apart from the integers.

  The matrix is a list of rows, each a list of booleans with the target bit last. Rows are
  separate arrays in the source, so replacing a row in the list is what the in-place
  update of its entries does. \<open>pivotCol[rank] = col\<close> always writes at the current length
  of \<open>pivotCol\<close> (one entry per pivot), so it is an append.
\<close>

datatype jsnum = Fin int | Infinity

fun jsnum_less :: "jsnum \<Rightarrow> jsnum \<Rightarrow> bool" where
  "jsnum_less (Fin a) (Fin b) = (a < b)"
| "jsnum_less (Fin a) Infinity = True"
| "jsnum_less Infinity _ = False"

fun jsnum_add :: "jsnum \<Rightarrow> jsnum \<Rightarrow> jsnum" where
  "jsnum_add (Fin a) (Fin b) = Fin (a + b)"
| "jsnum_add _ _ = Infinity"

definition buildMatrix :: "Machine \<Rightarrow> bool list list" where
  "buildMatrix m =
     map (\<lambda>i. map (\<lambda>j. includes_idx (buttons m ! j) i) [0..<length (buttons m)] @ [target m ! i])
       [0..<length (target m)]"

definition findPivot :: "bool list list \<Rightarrow> nat \<Rightarrow> nat \<Rightarrow> nat \<Rightarrow> nat option" where
  "findPivot matrix col rank numLights = find (\<lambda>row. matrix ! row ! col) [rank..<numLights]"

definition xorRow :: "bool list \<Rightarrow> bool list \<Rightarrow> nat \<Rightarrow> bool list" where
  "xorRow row pivot numButtons =
     fold (\<lambda>c r. r[c := (r ! c \<noteq> pivot ! c)]) [0..<numButtons + 1] row"

definition eliminate :: "bool list list \<Rightarrow> nat \<Rightarrow> nat \<Rightarrow> nat \<Rightarrow> nat \<Rightarrow> bool list list" where
  "eliminate matrix col rank numLights numButtons =
     fold (\<lambda>row mx. if row \<noteq> rank \<and> mx ! row ! col
                     then mx[row := xorRow (mx ! row) (mx ! rank) numButtons] else mx)
       [0..<numLights] matrix"

function gaussLoop ::
  "nat \<Rightarrow> nat \<Rightarrow> nat \<Rightarrow> bool list list \<times> nat \<times> nat list \<Rightarrow> bool list list \<times> nat \<times> nat list" where
  "gaussLoop numLights numButtons col (matrix, rank, pivotCol) =
     (if col < numButtons \<and> rank < numLights then
        (case findPivot matrix col rank numLights of
           None \<Rightarrow> gaussLoop numLights numButtons (col + 1) (matrix, rank, pivotCol)
         | Some pivotRow \<Rightarrow>
             gaussLoop numLights numButtons (col + 1)
               (eliminate (matrix[rank := matrix ! pivotRow, pivotRow := matrix ! rank])
                  col rank numLights numButtons,
                rank + 1, pivotCol @ [col]))
      else (matrix, rank, pivotCol))"
  by pat_completeness auto
termination
  by (relation "measure (\<lambda>(numLights, numButtons, col, st). numButtons - col)") auto

declare gaussLoop.simps [simp del]

definition assignFree :: "nat list \<Rightarrow> int \<Rightarrow> bool list \<Rightarrow> bool list" where
  "assignFree freeVars freeMask sol =
     fold (\<lambda>i s. s[freeVars ! i := (and32 freeMask (shl32 1 i) \<noteq> 0)]) [0..<length freeVars] sol"

definition backSubstitute :: "bool list list \<Rightarrow> nat list \<Rightarrow> nat \<Rightarrow> nat \<Rightarrow> bool list \<Rightarrow> bool list" where
  "backSubstitute matrix pivotCol rank numButtons sol =
     fold (\<lambda>r s.
             let col = pivotCol ! r;
                 v = fold (\<lambda>c v. if matrix ! r ! c \<and> s ! c then \<not> v else v)
                       [col + 1..<numButtons] (matrix ! r ! numButtons)
             in s[col := v])
       (rev [0..<rank]) sol"

definition trySolution :: "bool list list \<Rightarrow> nat list \<Rightarrow> nat \<Rightarrow> nat \<Rightarrow> nat list \<Rightarrow> int \<Rightarrow> bool list" where
  "trySolution matrix pivotCol rank numButtons freeVars freeMask =
     backSubstitute matrix pivotCol rank numButtons
       (assignFree freeVars freeMask (replicate numButtons False))"

definition countPresses :: "bool list \<Rightarrow> int" where
  "countPresses sol = int (length (filter (\<lambda>x. x) sol))"

definition solveMachineLights :: "Machine \<Rightarrow> jsnum" where
  "solveMachineLights m =
     (let numLights = length (target m);
          numButtons = length (buttons m)
      in case gaussLoop numLights numButtons 0 (buildMatrix m, 0, []) of
           (matrix, rank, pivotCol) \<Rightarrow>
             if list_ex (\<lambda>row. matrix ! row ! numButtons) [rank..<numLights] then Fin (- 1)
             else
               let freeVars = filter (\<lambda>col. col \<notin> set pivotCol) [0..<numButtons]
               in fold (\<lambda>mask minPresses.
                         let presses = countPresses (trySolution matrix pivotCol rank numButtons freeVars mask)
                         in if jsnum_less (Fin presses) minPresses then Fin presses else minPresses)
                    (map int [0..<nat (shl32 1 (length freeVars))]) Infinity)"

section \<open>The reduction solver in double arithmetic\<close>

text \<open>
  Every JavaScript number is a double. An integer of magnitude up to \<open>2 ^ 53\<close> is a double,
  and sums and differences of such integers are exact as long as the result stays in that
  range. Beyond it the result of an addition or subtraction is rounded to 53 significant
  bits, to nearest and ties to even. \<open>fl\<close> is that rounding on integers; results beyond the
  largest finite double (about \<open>1.8e308\<close>, where the source gets \<open>Infinity\<close>) are outside
  it. Doubling and halving an even integer are exact.

  The definitions with the suffix \<open>_fp\<close> are the functions of the source with every
  addition and subtraction that can leave the exact range rounded by \<open>fl\<close>. The definitions
  without the suffix are the same functions in exact integer arithmetic; the two agree on
  targets below \<open>2 ^ 47\<close> (\<open>solveMachineJoltage_fp_exact\<close>).
\<close>

function expo53 :: "nat \<Rightarrow> nat" where
  "expo53 n = (if n < 2 ^ 53 then 0 else Suc (expo53 (n div 2)))"
  by pat_completeness auto
termination
  by (relation "measure id") auto

declare expo53.simps [simp del]

definition roundNat :: "nat \<Rightarrow> nat" where
  "roundNat n =
     (let e = expo53 n; q = n div 2 ^ e; r = n mod 2 ^ e
      in (if 2 * r < 2 ^ e \<or> (2 * r = 2 ^ e \<and> even q) then q else q + 1) * 2 ^ e)"

definition fl :: "int \<Rightarrow> int" where
  "fl x = (if x < 0 then - int (roundNat (nat (- x))) else int (roundNat (nat x)))"

definition applyStep_fp :: "int \<Rightarrow> int list \<Rightarrow> Machine \<Rightarrow> nat \<Rightarrow> int list option \<Rightarrow> int list option" where
  "applyStep_fp pattern tgt m j acc =
     (case acc of None \<Rightarrow> None
      | Some newTarget \<Rightarrow>
          let newVal = fl (tgt ! j - countTouching pattern m j)
          in if newVal < 0 \<or> and32 newVal 1 = 1 then None
             else Some (newTarget @ [newVal div 2]))"

definition applyPattern_fp :: "int \<Rightarrow> int list \<Rightarrow> Machine \<Rightarrow> int list option" where
  "applyPattern_fp pattern tgt m = fold (applyStep_fp pattern tgt m) [0..<length tgt] (Some [])"

definition combineSolution_fp :: "int \<Rightarrow> int list \<Rightarrow> int list" where
  "combineSolution_fp pattern subSolution =
     map (\<lambda>(v, b). if pressed pattern b then fl (v * 2 + 1) else v * 2)
       (zip subSolution [0..<length subSolution])"

definition better_fp :: "int \<Rightarrow> Result \<Rightarrow> Result \<Rightarrow> Result" where
  "better_fp pattern subResult bestResult =
     (case (cost subResult, solution subResult) of
        (Some subCost, Some subSolution) \<Rightarrow>
          let patternCost = countBits pattern;
              totalCost = fl (patternCost + 2 * subCost)
          in (case cost bestResult of
                None \<Rightarrow> \<lparr>cost = Some totalCost, solution = Some (combineSolution_fp pattern subSolution)\<rparr>
              | Some bestCost \<Rightarrow>
                  if totalCost < bestCost
                  then \<lparr>cost = Some totalCost, solution = Some (combineSolution_fp pattern subSolution)\<rparr>
                  else bestResult)
      | _ \<Rightarrow> bestResult)"

lemma expo53_small: "n < 2 ^ 53 \<Longrightarrow> expo53 n = 0"
  by (subst expo53.simps) simp

lemma expo53_bounds:
  "n div 2 ^ expo53 n < 2 ^ 53 \<and> (0 < expo53 n \<longrightarrow> 2 ^ 52 \<le> n div 2 ^ expo53 n)"
proof (induction n rule: expo53.induct)
  case (1 n)
  show ?case
  proof (cases "n < 2 ^ 53")
    case True
    then show ?thesis by (simp add: expo53_small)
  next
    case False
    then have e: "expo53 n = Suc (expo53 (n div 2))" by (subst expo53.simps) simp
    have d: "n div 2 ^ Suc (expo53 (n div 2)) = (n div 2) div 2 ^ expo53 (n div 2)"
      by (simp add: div_mult2_eq)
    from 1[OF False] have ih1: "(n div 2) div 2 ^ expo53 (n div 2) < 2 ^ 53"
      and ih2: "0 < expo53 (n div 2) \<longrightarrow> 2 ^ 52 \<le> (n div 2) div 2 ^ expo53 (n div 2)" by simp_all
    have "2 ^ 52 \<le> (n div 2) div 2 ^ expo53 (n div 2)"
    proof (cases "0 < expo53 (n div 2)")
      case True
      with ih2 show ?thesis by simp
    next
      case z: False
      then have "expo53 (n div 2) = 0" by simp
      moreover have "2 ^ 52 \<le> n div 2" using False by simp
      ultimately show ?thesis by simp
    qed
    with ih1 show ?thesis unfolding e d by simp
  qed
qed

lemma roundNat_small: "n < 2 ^ 53 \<Longrightarrow> roundNat n = n"
  by (simp add: roundNat_def expo53_small)

lemma roundNat_le: "roundNat n \<le> (n div 2 ^ expo53 n + 1) * 2 ^ expo53 n"
  by (simp add: roundNat_def Let_def)

lemma roundNat_ge: "n div 2 ^ expo53 n * 2 ^ expo53 n \<le> roundNat n"
  by (simp add: roundNat_def Let_def)

lemma roundNat_pos: "0 < n \<Longrightarrow> 0 < roundNat n"
proof (cases "n < 2 ^ 53")
  case True
  assume "0 < n"
  with True show ?thesis by (simp add: roundNat_small)
next
  case False
  then have "0 < expo53 n" by (subst expo53.simps) simp
  with expo53_bounds[of n] have "2 ^ 52 \<le> n div 2 ^ expo53 n" by simp
  then have "0 < n div 2 ^ expo53 n * 2 ^ expo53 n" by simp
  with roundNat_ge[of n] show ?thesis by linarith
qed

lemma roundNat_half_less: "0 < n \<Longrightarrow> roundNat n div 2 < n"
proof (cases "n < 2 ^ 53")
  case True
  assume "0 < n"
  with True show ?thesis by (simp add: roundNat_small)
next
  case False
  then have "0 < expo53 n" by (subst expo53.simps) simp
  with expo53_bounds[of n] have q: "2 ^ 52 \<le> n div 2 ^ expo53 n" by simp
  let ?q = "n div 2 ^ expo53 n" and ?p = "(2::nat) ^ expo53 n"
  have "2 \<le> ?q" using q by (rule order_trans[rotated]) simp
  then have "?q + 1 < 2 * ?q" by simp
  then have a: "(?q + 1) * ?p < (2 * ?q) * ?p" by (rule mult_strict_right_mono) simp
  have b: "(2 * ?q) * ?p = 2 * (?q * ?p)" by simp
  have c: "?q * ?p \<le> n" by simp
  from a b c have "(?q + 1) * ?p < 2 * n" by linarith
  with roundNat_le[of n] have "roundNat n < 2 * n" by linarith
  then show ?thesis by simp
qed

lemma fl_exact: "\<bar>x\<bar> < 2 ^ 53 \<Longrightarrow> fl x = x"
proof -
  assume a: "\<bar>x\<bar> < 2 ^ 53"
  then have "nat \<bar>x\<bar> < 2 ^ 53"
    by (metis nat_less_iff abs_ge_zero of_nat_numeral of_nat_power)
  then have "roundNat (nat \<bar>x\<bar>) = nat \<bar>x\<bar>" by (rule roundNat_small)
  then show ?thesis by (cases "x < 0") (simp_all add: fl_def abs_if)
qed

lemma fl_neg: "x < 0 \<Longrightarrow> fl x < 0"
  using roundNat_pos[of "nat (- x)"] by (simp add: fl_def)

lemma fl_nonneg: "0 \<le> x \<Longrightarrow> 0 \<le> fl x"
  by (simp add: fl_def)

lemma fl_half_less: "0 < x \<Longrightarrow> fl x div 2 < x"
proof -
  assume x: "0 < x"
  then have "roundNat (nat x) div 2 < nat x" by (intro roundNat_half_less) simp
  then have "int (roundNat (nat x) div 2) < int (nat x)" by (simp only: of_nat_less_iff)
  then show ?thesis using x by (simp add: fl_def zdiv_int)
qed

lemma fl_zero [simp]: "fl 0 = 0"
  by (simp add: fl_exact)

lemma applyStep_fp_None [simp]: "applyStep_fp pattern tgt m j None = None"
  by (simp add: applyStep_fp_def)

lemma applyStep_fp_fold_Some:
  "fold (applyStep_fp pattern tgt m) [0..<n] (Some []) = Some nt \<Longrightarrow>
     length nt = n \<and>
     (\<forall>j<n. countTouching pattern m j \<le> tgt ! j \<and> 0 \<le> nt ! j \<and>
        nt ! j = fl (tgt ! j - countTouching pattern m j) div 2 \<and>
        even (fl (tgt ! j - countTouching pattern m j)))"
proof (induction n arbitrary: nt)
  case 0
  then show ?case by simp
next
  case (Suc n)
  from Suc.prems obtain pre where pre: "fold (applyStep_fp pattern tgt m) [0..<n] (Some []) = Some pre"
    and step: "applyStep_fp pattern tgt m n (Some pre) = Some nt"
    by (cases "fold (applyStep_fp pattern tgt m) [0..<n] (Some [])") auto
  from Suc.IH[OF pre] have len: "length pre = n"
    and ih: "\<forall>j<n. countTouching pattern m j \<le> tgt ! j \<and> 0 \<le> pre ! j \<and>
        pre ! j = fl (tgt ! j - countTouching pattern m j) div 2 \<and>
        even (fl (tgt ! j - countTouching pattern m j))" by auto
  let ?v = "fl (tgt ! n - countTouching pattern m n)"
  from step have nt: "nt = pre @ [?v div 2]" and v0: "\<not> ?v < 0" and vev: "?v mod 2 \<noteq> 1"
    by (auto simp: applyStep_fp_def Let_def and32_one split: if_splits)
  from v0 have ge: "countTouching pattern m n \<le> tgt ! n"
    using fl_neg[of "tgt ! n - countTouching pattern m n"] by linarith
  have last: "0 \<le> ?v div 2 \<and> even ?v" using v0 vev by presburger
  have "\<forall>j<Suc n. countTouching pattern m j \<le> tgt ! j \<and> 0 \<le> nt ! j \<and>
        nt ! j = fl (tgt ! j - countTouching pattern m j) div 2 \<and>
        even (fl (tgt ! j - countTouching pattern m j))"
  proof (intro allI impI)
    fix j assume "j < Suc n"
    then consider "j < n" | "j = n" by linarith
    then show "countTouching pattern m j \<le> tgt ! j \<and> 0 \<le> nt ! j \<and>
        nt ! j = fl (tgt ! j - countTouching pattern m j) div 2 \<and>
        even (fl (tgt ! j - countTouching pattern m j))"
      using ih last ge nt len by cases (auto simp: nth_append)
  qed
  moreover have "length nt = Suc n" using nt len by simp
  ultimately show ?case by blast
qed

lemma applyPattern_fp_Some:
  "applyPattern_fp pattern tgt m = Some nt \<Longrightarrow>
     length nt = length tgt \<and>
     (\<forall>j<length tgt. countTouching pattern m j \<le> tgt ! j \<and> 0 \<le> nt ! j \<and>
        nt ! j = fl (tgt ! j - countTouching pattern m j) div 2 \<and>
        even (fl (tgt ! j - countTouching pattern m j)))"
  unfolding applyPattern_fp_def by (rule applyStep_fp_fold_Some)

lemma applyPattern_decreases_fp:
  assumes "applyPattern_fp pattern tgt m = Some nt" "\<not> list_all (\<lambda>v. v = 0) tgt"
  shows "sum_list (map nat nt) < sum_list (map nat tgt)"
proof -
  from applyPattern_fp_Some[OF assms(1)] have len: "length nt = length tgt"
    and eq: "\<forall>j<length tgt. countTouching pattern m j \<le> tgt ! j \<and> 0 \<le> nt ! j \<and>
        nt ! j = fl (tgt ! j - countTouching pattern m j) div 2" by auto
  have bound: "\<And>j. j < length tgt \<Longrightarrow> nt ! j \<le> tgt ! j \<and> (tgt ! j \<noteq> 0 \<longrightarrow> nt ! j < tgt ! j)"
  proof -
    fix j assume j: "j < length tgt"
    let ?y = "tgt ! j - countTouching pattern m j"
    from eq j have "countTouching pattern m j \<le> tgt ! j" by blast
    then have y0: "0 \<le> ?y" by simp
    from eq j have n: "nt ! j = fl ?y div 2" by blast
    have c0: "0 \<le> countTouching pattern m j" by (rule countTouching_nonneg)
    show "nt ! j \<le> tgt ! j \<and> (tgt ! j \<noteq> 0 \<longrightarrow> nt ! j < tgt ! j)"
    proof (cases "?y = 0")
      case True
      then have "nt ! j = 0" using n by simp
      then show ?thesis using y0 c0 by auto
    next
      case False
      with y0 have "0 < ?y" by simp
      from fl_half_less[OF this] n have "nt ! j < ?y" by simp
      then show ?thesis using c0 by auto
    qed
  qed
  have le: "\<forall>j<length tgt. nat (nt ! j) \<le> nat (tgt ! j)"
    using bound nat_mono by blast
  from assms(2) obtain j where j: "j < length tgt" "tgt ! j \<noteq> 0"
    by (auto simp: list_all_length)
  from eq j(1) have "0 \<le> nt ! j" by blast
  moreover from bound[OF j(1)] j(2) have "nt ! j < tgt ! j" by blast
  ultimately have "nat (nt ! j) < nat (tgt ! j)" by linarith
  with j have "\<exists>j<length tgt. nat (nt ! j) < nat (tgt ! j)" by auto
  from sum_list_nat_less[OF len le this] show ?thesis .
qed

function solveRecursive_fp ::
  "Machine \<Rightarrow> (int \<rightharpoonup> int list) \<Rightarrow> int list \<Rightarrow> (string \<rightharpoonup> Result) \<Rightarrow> Result \<times> (string \<rightharpoonup> Result)" where
  "solveRecursive_fp m parityPatterns tgt memo =
     (if list_all (\<lambda>v. v = 0) tgt
      then (\<lparr>cost = Some 0, solution = Some (replicate (length (buttons m)) 0)\<rparr>, memo)
      else
        let key = memoKey tgt in
        case memo key of
          Some r \<Rightarrow> (r, memo)
        | None \<Rightarrow>
            (case parityPatterns (targetParity tgt) of
               None \<Rightarrow> (unsolvable, memo(key \<mapsto> unsolvable))
             | Some patterns \<Rightarrow>
                 if patterns = [] then (unsolvable, memo(key \<mapsto> unsolvable))
                 else
                   (case fold (\<lambda>pattern (bestResult, memo1).
                                 case applyPattern_fp pattern tgt m of
                                   None \<Rightarrow> (bestResult, memo1)
                                 | Some newTarget \<Rightarrow>
                                     (case solveRecursive_fp m parityPatterns newTarget memo1 of
                                        (subResult, memo2) \<Rightarrow> (better_fp pattern subResult bestResult, memo2)))
                           patterns (unsolvable, memo) of
                      (bestResult, memo') \<Rightarrow> (bestResult, memo'(key \<mapsto> bestResult)))))"
  by pat_completeness auto
termination
  apply (relation "measure (\<lambda>(m, pp, tgt, memo). sum_list (map nat tgt))")
   apply simp
  apply (auto simp: applyPattern_decreases_fp)
  done

declare solveRecursive_fp.simps [simp del]

definition solveMachineJoltage_fp :: "Machine \<Rightarrow> int list option" where
  "solveMachineJoltage_fp m =
     (if length (joltage m) = 0 then Some (replicate (length (buttons m)) 0)
      else solution (fst (solveRecursive_fp m (precomputeParityPatterns m) (joltage m) Map.empty)))"



function solveNoMemo_fp :: "Machine \<Rightarrow> (int \<rightharpoonup> int list) \<Rightarrow> int list \<Rightarrow> Result" where
  "solveNoMemo_fp m parityPatterns tgt =
     (if list_all (\<lambda>v. v = 0) tgt
      then \<lparr>cost = Some 0, solution = Some (replicate (length (buttons m)) 0)\<rparr>
      else
        (case parityPatterns (targetParity tgt) of
           None \<Rightarrow> unsolvable
         | Some patterns \<Rightarrow>
             if patterns = [] then unsolvable
             else
               fold (\<lambda>pattern bestResult.
                       case applyPattern_fp pattern tgt m of
                         None \<Rightarrow> bestResult
                       | Some newTarget \<Rightarrow>
                           better_fp pattern (solveNoMemo_fp m parityPatterns newTarget) bestResult)
                 patterns unsolvable))"
  by pat_completeness auto
termination
  apply (relation "measure (\<lambda>(m, pp, tgt). sum_list (map nat tgt))")
   apply simp
  apply (auto simp: applyPattern_decreases_fp)
  done

declare solveNoMemo_fp.simps [simp del]

definition memoStep_fp ::
  "Machine \<Rightarrow> (int \<rightharpoonup> int list) \<Rightarrow> int list \<Rightarrow> int \<Rightarrow> Result \<times> (string \<rightharpoonup> Result) \<Rightarrow> Result \<times> (string \<rightharpoonup> Result)" where
  "memoStep_fp m parityPatterns tgt pattern acc =
     (case acc of (bestResult, memo1) \<Rightarrow>
        (case applyPattern_fp pattern tgt m of
           None \<Rightarrow> (bestResult, memo1)
         | Some newTarget \<Rightarrow>
             (case solveRecursive_fp m parityPatterns newTarget memo1 of
                (subResult, memo2) \<Rightarrow> (better_fp pattern subResult bestResult, memo2))))"

definition pureStep_fp :: "Machine \<Rightarrow> (int \<rightharpoonup> int list) \<Rightarrow> int list \<Rightarrow> int \<Rightarrow> Result \<Rightarrow> Result" where
  "pureStep_fp m parityPatterns tgt pattern bestResult =
     (case applyPattern_fp pattern tgt m of
        None \<Rightarrow> bestResult
      | Some newTarget \<Rightarrow> better_fp pattern (solveNoMemo_fp m parityPatterns newTarget) bestResult)"

lemma solveRecursive_unfold_fp:
  "solveRecursive_fp m pp tgt memo =
     (if list_all (\<lambda>v. v = 0) tgt then (baseResult m, memo)
      else case memo (memoKey tgt) of
          Some r \<Rightarrow> (r, memo)
        | None \<Rightarrow>
            (case pp (targetParity tgt) of
               None \<Rightarrow> (unsolvable, memo(memoKey tgt \<mapsto> unsolvable))
             | Some patterns \<Rightarrow>
                 if patterns = [] then (unsolvable, memo(memoKey tgt \<mapsto> unsolvable))
                 else (case fold (memoStep_fp m pp tgt) patterns (unsolvable, memo) of
                         (bestResult, memo') \<Rightarrow> (bestResult, memo'(memoKey tgt \<mapsto> bestResult)))))"
  by (subst solveRecursive_fp.simps)
    (simp add: memoStep_fp_def[abs_def] baseResult_def Let_def split: option.splits)

lemma solveNoMemo_unfold_fp:
  "solveNoMemo_fp m pp tgt =
     (if list_all (\<lambda>v. v = 0) tgt then baseResult m
      else case pp (targetParity tgt) of
          None \<Rightarrow> unsolvable
        | Some patterns \<Rightarrow>
            if patterns = [] then unsolvable
            else fold (pureStep_fp m pp tgt) patterns unsolvable)"
  by (subst solveNoMemo_fp.simps)
    (simp add: pureStep_fp_def[abs_def] baseResult_def split: option.splits)

definition memo_ok_fp :: "Machine \<Rightarrow> (int \<rightharpoonup> int list) \<Rightarrow> (string \<rightharpoonup> Result) \<Rightarrow> bool" where
  "memo_ok_fp m pp memo = (\<forall>tgt r. memo (memoKey tgt) = Some r \<longrightarrow> r = solveNoMemo_fp m pp tgt)"

lemma memo_ok_empty_fp: "memo_ok_fp m pp Map.empty"
  by (simp add: memo_ok_fp_def)

lemma memo_ok_update_fp:
  "memo_ok_fp m pp memo \<Longrightarrow> memo_ok_fp m pp (memo(memoKey tgt \<mapsto> solveNoMemo_fp m pp tgt))"
  unfolding memo_ok_fp_def using memoKey_inj by auto

lemma memoStep_fold_fp:
  assumes rec: "\<And>p nt memo. p \<in> set ps \<Longrightarrow> applyPattern_fp p tgt m = Some nt \<Longrightarrow> memo_ok_fp m pp memo \<Longrightarrow>
      fst (solveRecursive_fp m pp nt memo) = solveNoMemo_fp m pp nt \<and> memo_ok_fp m pp (snd (solveRecursive_fp m pp nt memo))"
    and ok: "memo_ok_fp m pp memo"
  shows "fst (fold (memoStep_fp m pp tgt) ps (best, memo)) = fold (pureStep_fp m pp tgt) ps best
         \<and> memo_ok_fp m pp (snd (fold (memoStep_fp m pp tgt) ps (best, memo)))"
  using rec ok
proof (induction ps arbitrary: best memo)
  case Nil
  then show ?case by simp
next
  case (Cons p ps)
  obtain best1 memo1 where step: "memoStep_fp m pp tgt p (best, memo) = (best1, memo1)"
    by (cases "memoStep_fp m pp tgt p (best, memo)")
  have "best1 = pureStep_fp m pp tgt p best \<and> memo_ok_fp m pp memo1"
  proof (cases "applyPattern_fp p tgt m")
    case None
    with step Cons.prems(2) show ?thesis by (simp add: memoStep_fp_def pureStep_fp_def)
  next
    case (Some nt)
    from Cons.prems(1)[of p nt memo] Some Cons.prems(2)
    have "fst (solveRecursive_fp m pp nt memo) = solveNoMemo_fp m pp nt"
      "memo_ok_fp m pp (snd (solveRecursive_fp m pp nt memo))" by simp_all
    with step Some show ?thesis
      by (auto simp: memoStep_fp_def pureStep_fp_def split: prod.splits)
  qed
  then have b1: "best1 = pureStep_fp m pp tgt p best" and ok1: "memo_ok_fp m pp memo1" by simp_all
  have "fst (fold (memoStep_fp m pp tgt) ps (best1, memo1)) = fold (pureStep_fp m pp tgt) ps best1
         \<and> memo_ok_fp m pp (snd (fold (memoStep_fp m pp tgt) ps (best1, memo1)))"
    by (rule Cons.IH) (use Cons.prems(1) ok1 in auto)
  with step b1 show ?case by simp
qed

lemma solveRecursive_memo_fp:
  "memo_ok_fp m pp memo \<Longrightarrow>
     fst (solveRecursive_fp m pp tgt memo) = solveNoMemo_fp m pp tgt
     \<and> memo_ok_fp m pp (snd (solveRecursive_fp m pp tgt memo))"
proof (induction "sum_list (map nat tgt)" arbitrary: tgt memo rule: less_induct)
  case less
  note ok = less.prems
  show ?case
  proof (cases "list_all (\<lambda>v. v = 0) tgt")
    case True
    then show ?thesis using ok
      by (simp add: solveRecursive_unfold_fp solveNoMemo_unfold_fp)
  next
    case nz: False
    show ?thesis
    proof (cases "memo (memoKey tgt)")
      case (Some r)
      with ok have "r = solveNoMemo_fp m pp tgt" by (simp add: memo_ok_fp_def)
      with Some nz ok show ?thesis by (simp add: solveRecursive_unfold_fp)
    next
      case None
      show ?thesis
      proof (cases "pp (targetParity tgt)")
        case pn: None
        then have pure: "solveNoMemo_fp m pp tgt = unsolvable" using nz by (simp add: solveNoMemo_unfold_fp)
        have "solveRecursive_fp m pp tgt memo = (unsolvable, memo(memoKey tgt \<mapsto> unsolvable))"
          using nz None pn by (simp add: solveRecursive_unfold_fp)
        then show ?thesis using pure memo_ok_update_fp[OF ok, of tgt] by simp
      next
        case (Some patterns)
        show ?thesis
        proof (cases "patterns = []")
          case True
          then have pure: "solveNoMemo_fp m pp tgt = unsolvable" using nz Some by (simp add: solveNoMemo_unfold_fp)
          have "solveRecursive_fp m pp tgt memo = (unsolvable, memo(memoKey tgt \<mapsto> unsolvable))"
            using nz None Some True by (simp add: solveRecursive_unfold_fp)
          then show ?thesis using pure memo_ok_update_fp[OF ok, of tgt] by simp
        next
          case ne: False
          obtain best memo' where f: "fold (memoStep_fp m pp tgt) patterns (unsolvable, memo) = (best, memo')"
            by (cases "fold (memoStep_fp m pp tgt) patterns (unsolvable, memo)")
          have "fst (fold (memoStep_fp m pp tgt) patterns (unsolvable, memo)) = fold (pureStep_fp m pp tgt) patterns unsolvable
              \<and> memo_ok_fp m pp (snd (fold (memoStep_fp m pp tgt) patterns (unsolvable, memo)))"
          proof (rule memoStep_fold_fp)
            fix p nt memo1
            assume "applyPattern_fp p tgt m = Some nt" and ok1: "memo_ok_fp m pp memo1"
            then have "sum_list (map nat nt) < sum_list (map nat tgt)"
              using applyPattern_decreases_fp nz by blast
            from less.hyps[OF this ok1]
            show "fst (solveRecursive_fp m pp nt memo1) = solveNoMemo_fp m pp nt \<and>
                  memo_ok_fp m pp (snd (solveRecursive_fp m pp nt memo1))" .
          next
            show "memo_ok_fp m pp memo" by (rule ok)
          qed
          with f have b: "best = fold (pureStep_fp m pp tgt) patterns unsolvable" and ok': "memo_ok_fp m pp memo'"
            by simp_all
          have pure: "solveNoMemo_fp m pp tgt = best" using nz Some ne b by (simp add: solveNoMemo_unfold_fp)
          have "solveRecursive_fp m pp tgt memo = (best, memo'(memoKey tgt \<mapsto> best))"
            using nz None Some ne f by (simp add: solveRecursive_unfold_fp)
          then show ?thesis using pure memo_ok_update_fp[OF ok', of tgt] by simp
        qed
      qed
    qed
  qed
qed

subsection \<open>Where the double arithmetic is exact\<close>

definition smallPatterns :: "(int \<rightharpoonup> int list) \<Rightarrow> bool" where
  "smallPatterns pp = (\<forall>par ps p. pp par = Some ps \<and> p \<in> set ps \<longrightarrow> 0 \<le> countBits p \<and> countBits p \<le> 30)"

definition bounded :: "nat \<Rightarrow> Result \<Rightarrow> bool" where
  "bounded k r =
     ((\<forall>c. cost r = Some c \<longrightarrow> 0 \<le> c \<and> c \<le> 30 * (2 ^ (k + 1) - 1)) \<and>
      (\<forall>s. solution r = Some s \<longrightarrow> (\<forall>v\<in>set s. 0 \<le> v \<and> v < 2 ^ (k + 1))))"

lemma bounded_unsolvable [simp]: "bounded k unsolvable"
  by (simp add: bounded_def unsolvable_def)

lemma bounded_base [simp]: "bounded k (baseResult m)"
proof -
  have "(1::int) \<le> 2 ^ (k + 1)" by (rule one_le_power) simp
  then have "(0::int) \<le> 30 * (2 ^ (k + 1) - 1)" by simp
  moreover have "(0::int) < 2 ^ (k + 1)" by simp
  ultimately show ?thesis unfolding bounded_def baseResult_def by auto
qed

lemma applyStep_fp_eq:
  assumes "tgt ! j < 2 ^ 53"
  shows "applyStep_fp p tgt m j acc = applyStep p tgt m j acc"
proof (cases "tgt ! j - countTouching p m j < 0")
  case True
  then have "fl (tgt ! j - countTouching p m j) < 0" by (rule fl_neg)
  with True show ?thesis by (simp add: applyStep_fp_def applyStep_def split: option.splits)
next
  case False
  moreover have "0 \<le> countTouching p m j" by (rule countTouching_nonneg)
  ultimately have "\<bar>tgt ! j - countTouching p m j\<bar> < 2 ^ 53" using assms by simp
  then have "fl (tgt ! j - countTouching p m j) = tgt ! j - countTouching p m j" by (rule fl_exact)
  then show ?thesis by (simp add: applyStep_fp_def applyStep_def split: option.splits)
qed

lemma applyPattern_fp_eq:
  assumes "\<forall>v\<in>set tgt. v < 2 ^ 53"
  shows "applyPattern_fp p tgt m = applyPattern p tgt m"
  unfolding applyPattern_fp_def applyPattern_def
proof (rule fold_cong)
  fix j assume "j \<in> set [0..<length tgt]"
  then have "tgt ! j < 2 ^ 53" using assms by simp
  then show "applyStep_fp p tgt m j = applyStep p tgt m j"
    by (intro ext) (rule applyStep_fp_eq)
qed simp_all

lemma combineSolution_fp_eq:
  assumes "\<forall>v\<in>set s. 0 \<le> v \<and> v < 2 ^ 52"
  shows "combineSolution_fp p s = combineSolution p s"
proof -
  have "\<And>v b. (v, b) \<in> set (zip s [0..<length s]) \<Longrightarrow> fl (v * 2 + 1) = v * 2 + 1"
  proof -
    fix v b assume "(v, b) \<in> set (zip s [0..<length s])"
    then have "v \<in> set s" by (rule set_zip_leftD)
    with assms have "0 \<le> v" "v < 2 ^ 52" by simp_all
    then have "\<bar>v * 2 + 1\<bar> < 2 ^ 53" by simp
    then show "fl (v * 2 + 1) = v * 2 + 1" by (rule fl_exact)
  qed
  then show ?thesis
    unfolding combineSolution_fp_def combineSolution_def by (intro map_cong) auto
qed

lemma pow_le_47: "Suc k \<le> 47 \<Longrightarrow> (2::int) ^ (k + 1) \<le> 140737488355328"
proof -
  assume "Suc k \<le> 47"
  then have "(2::int) ^ (k + 1) \<le> 2 ^ 47" by (intro power_increasing) simp_all
  then show ?thesis by simp
qed

lemma better_fp_eq:
  assumes k: "Suc k \<le> 47" and sub: "bounded k sub" and p: "0 \<le> countBits p" "countBits p \<le> 30"
  shows "better_fp p sub best = better p sub best"
proof (cases "cost sub")
  case None
  then show ?thesis by (simp add: better_fp_def better_def)
next
  case (Some c)
  show ?thesis
  proof (cases "solution sub")
    case None
    with Some show ?thesis by (simp add: better_fp_def better_def)
  next
    case (Some s)
    from sub \<open>cost sub = Some c\<close> have c: "0 \<le> c" "c \<le> 30 * (2 ^ (k + 1) - 1)"
      by (simp_all add: bounded_def)
    from sub Some have s: "\<forall>v\<in>set s. 0 \<le> v \<and> v < 2 ^ (k + 1)" by (simp add: bounded_def)
    note pw = pow_le_47[OF k]
    define P :: int where "P = 2 ^ (k + 1)"
    have "c \<le> 30 * (P - 1)" using c(2) by (simp only: P_def)
    moreover have "P \<le> 140737488355328" using pw by (simp only: P_def)
    ultimately have "c \<le> 30 * 140737488355328 - 30" by simp
    then have "\<bar>countBits p + 2 * c\<bar> < 2 ^ 53" using c(1) p by simp
    then have t: "fl (countBits p + 2 * c) = countBits p + 2 * c" by (rule fl_exact)
    have "\<forall>v\<in>set s. 0 \<le> v \<and> v < 2 ^ 52"
    proof
      fix v assume "v \<in> set s"
      with s have "0 \<le> v" "v < 2 ^ (k + 1)" by simp_all
      with pw show "0 \<le> v \<and> v < 2 ^ 52" by simp
    qed
    then have cs: "combineSolution_fp p s = combineSolution p s" by (rule combineSolution_fp_eq)
    show ?thesis using \<open>cost sub = Some c\<close> Some t cs
      by (simp add: better_fp_def better_def Let_def split: option.splits)
  qed
qed

lemma combineSolution_set:
  "v \<in> set (combineSolution p s) \<Longrightarrow> \<exists>u\<in>set s. v = u * 2 + 1 \<or> v = u * 2"
  unfolding combineSolution_def by (auto dest: set_zip_leftD split: if_splits)

lemma bounded_better:
  assumes sub: "bounded k sub" and best: "bounded (Suc k) best"
    and p: "0 \<le> countBits p" "countBits p \<le> 30"
  shows "bounded (Suc k) (better p sub best)"
proof (cases "cost sub")
  case None
  then show ?thesis using best by (simp add: better_def)
next
  case (Some c)
  show ?thesis
  proof (cases "solution sub")
    case None
    with Some show ?thesis using best by (simp add: better_def)
  next
    case (Some s)
    from sub \<open>cost sub = Some c\<close> have c: "0 \<le> c" "c \<le> 30 * (2 ^ (k + 1) - 1)"
      by (simp_all add: bounded_def)
    from sub Some have s: "\<forall>v\<in>set s. 0 \<le> v \<and> v < 2 ^ (k + 1)" by (simp add: bounded_def)
    have c': "0 \<le> countBits p + 2 * c \<and> countBits p + 2 * c \<le> 30 * (2 ^ (Suc k + 1) - 1)"
      using c p by simp
    have s': "\<forall>v\<in>set (combineSolution p s). 0 \<le> v \<and> v < 2 ^ (Suc k + 1)"
    proof
      fix v assume "v \<in> set (combineSolution p s)"
      from combineSolution_set[OF this] obtain u where u: "u \<in> set s" "v = u * 2 + 1 \<or> v = u * 2" by blast
      with s have "0 \<le> u" "u < 2 ^ (k + 1)" by simp_all
      with u(2) show "0 \<le> v \<and> v < 2 ^ (Suc k + 1)" by auto
    qed
    have new: "bounded (Suc k) \<lparr>cost = Some (countBits p + 2 * c), solution = Some (combineSolution p s)\<rparr>"
      using c' s' by (simp add: bounded_def)
    show ?thesis using \<open>cost sub = Some c\<close> Some new best
      by (simp add: better_def Let_def split: option.splits)
  qed
qed

lemma pureStep_fp_fold_eq:
  assumes k: "Suc k \<le> 47"
    and pats: "\<And>p. p \<in> set ps \<Longrightarrow> 0 \<le> countBits p \<and> countBits p \<le> 30"
    and ap: "\<And>p. applyPattern_fp p tgt m = applyPattern p tgt m"
    and sub: "\<And>p nt. applyPattern p tgt m = Some nt \<Longrightarrow>
        solveNoMemo_fp m pp nt = solveNoMemo m pp nt \<and> bounded k (solveNoMemo m pp nt)"
    and best: "bounded (Suc k) best"
  shows "fold (pureStep_fp m pp tgt) ps best = fold (pureStep m pp tgt) ps best \<and>
         bounded (Suc k) (fold (pureStep m pp tgt) ps best)"
  using pats best
proof (induction ps arbitrary: best)
  case Nil
  then show ?case by simp
next
  case (Cons p ps)
  have pb: "0 \<le> countBits p" "countBits p \<le> 30" using Cons.prems(1)[of p] by simp_all
  have "pureStep_fp m pp tgt p best = pureStep m pp tgt p best \<and> bounded (Suc k) (pureStep m pp tgt p best)"
  proof (cases "applyPattern p tgt m")
    case None
    then show ?thesis using Cons.prems(2) by (simp add: pureStep_fp_def pureStep_def ap)
  next
    case (Some nt)
    from sub[OF Some] have e: "solveNoMemo_fp m pp nt = solveNoMemo m pp nt"
      and b: "bounded k (solveNoMemo m pp nt)" by simp_all
    from better_fp_eq[OF k b pb] bounded_better[OF b Cons.prems(2) pb] Some e
    show ?thesis by (simp add: pureStep_fp_def pureStep_def ap)
  qed
  moreover have "\<And>q. q \<in> set ps \<Longrightarrow> 0 \<le> countBits q \<and> countBits q \<le> 30"
    using Cons.prems(1) by (meson list.set_intros(2))
  ultimately show ?case using Cons.IH by simp
qed

lemma applyPattern_negative:
  assumes "j < length tgt" "tgt ! j < 0"
  shows "applyPattern p tgt m = None"
proof (cases "applyPattern p tgt m")
  case None
  then show ?thesis .
next
  case (Some nt)
  from applyPattern_half[OF Some assms(1)] have "0 \<le> tgt ! j div 2" by linarith
  with assms(2) show ?thesis by simp
qed

lemma pureStep_fold_None:
  "(\<And>p. applyPattern p tgt m = None) \<Longrightarrow> fold (pureStep m pp tgt) ps best = best"
  by (induction ps arbitrary: best) (simp_all add: pureStep_def)

lemma pureStep_fp_fold_None:
  "(\<And>p. applyPattern_fp p tgt m = None) \<Longrightarrow> fold (pureStep_fp m pp tgt) ps best = best"
  by (induction ps arbitrary: best) (simp_all add: pureStep_fp_def)

lemma pow_lt_53: "k \<le> 47 \<Longrightarrow> (2::int) ^ k < 2 ^ 53"
  by (rule power_strict_increasing) simp_all

lemma pow_lt_53_num: "k \<le> 47 \<Longrightarrow> (2::int) ^ k < 9007199254740992"
  using pow_lt_53[of k] by simp

lemma solveNoMemo_fp_exact:
  assumes sp: "smallPatterns pp"
  shows "k \<le> 47 \<Longrightarrow> (\<forall>v\<in>set tgt. v < 2 ^ k) \<Longrightarrow>
     solveNoMemo_fp m pp tgt = solveNoMemo m pp tgt \<and> bounded k (solveNoMemo m pp tgt)"
proof (induction k arbitrary: tgt)
  case 0
  then have small: "\<forall>v\<in>set tgt. v < 2 ^ 53" by auto
  show ?case
  proof (cases "list_all (\<lambda>v. v = 0) tgt")
    case True
    then show ?thesis by (simp add: solveNoMemo_unfold_fp solveNoMemo_unfold)
  next
    case False
    then obtain j where j: "j < length tgt" "tgt ! j \<noteq> 0" by (auto simp: list_all_length)
    with 0 have "tgt ! j < 0" by (metis less_le nth_mem power_0 zle_diff1_eq diff_self)
    then have n: "\<And>p. applyPattern p tgt m = None" using applyPattern_negative[OF j(1)] by simp
    then have nf: "\<And>p. applyPattern_fp p tgt m = None" by (simp add: applyPattern_fp_eq[OF small])
    have "solveNoMemo m pp tgt = unsolvable"
      using False pureStep_fold_None[of tgt m pp, OF n]
      by (simp add: solveNoMemo_unfold split: option.splits)
    moreover have "solveNoMemo_fp m pp tgt = unsolvable"
      using False pureStep_fp_fold_None[of tgt m pp, OF nf]
      by (simp add: solveNoMemo_unfold_fp split: option.splits)
    ultimately show ?thesis by simp
  qed
next
  case (Suc k)
  then have k: "k \<le> 47" by simp
  have "(2::int) ^ Suc k < 2 ^ 53" using Suc.prems(1) by (rule pow_lt_53)
  with Suc.prems(2) have small: "\<forall>v\<in>set tgt. v < 2 ^ 53" by fastforce
  show ?case
  proof (cases "list_all (\<lambda>v. v = 0) tgt")
    case True
    then show ?thesis by (simp add: solveNoMemo_unfold_fp solveNoMemo_unfold)
  next
    case nz: False
    show ?thesis
    proof (cases "pp (targetParity tgt)")
      case None
      then show ?thesis using nz by (simp add: solveNoMemo_unfold_fp solveNoMemo_unfold)
    next
      case (Some ps)
      have "fold (pureStep_fp m pp tgt) ps unsolvable = fold (pureStep m pp tgt) ps unsolvable \<and>
         bounded (Suc k) (fold (pureStep m pp tgt) ps unsolvable)"
      proof (rule pureStep_fp_fold_eq[OF Suc.prems(1)])
        fix p assume "p \<in> set ps"
        with sp Some show "0 \<le> countBits p \<and> countBits p \<le> 30" unfolding smallPatterns_def by blast
      next
        fix p show "applyPattern_fp p tgt m = applyPattern p tgt m" by (rule applyPattern_fp_eq[OF small])
      next
        fix p nt assume ap: "applyPattern p tgt m = Some nt"
        have "\<forall>v\<in>set nt. v < 2 ^ k"
        proof
          fix v assume "v \<in> set nt"
          then obtain j where j: "j < length nt" "v = nt ! j" by (metis in_set_conv_nth)
          from applyPattern_Some[OF ap] j(1) have jt: "j < length tgt" by simp
          with Suc.prems(2) have "tgt ! j < 2 ^ Suc k" by simp
          then have "tgt ! j div 2 < 2 ^ k" by simp
          with applyPattern_half[OF ap jt] j(2) show "v < 2 ^ k" by linarith
        qed
        from Suc.IH[OF k this]
        show "solveNoMemo_fp m pp nt = solveNoMemo m pp nt \<and> bounded k (solveNoMemo m pp nt)" .
      qed simp
      then show ?thesis using nz Some
        by (simp add: solveNoMemo_unfold_fp solveNoMemo_unfold)
    qed
  qed
qed

lemma shl32_one_le: "shl32 1 n \<le> 2 ^ 30"
proof (cases "n mod 32 = 31")
  case True
  then show ?thesis by (simp add: shl32_def toInt32_def)
next
  case False
  then have le: "n mod 32 \<le> 30"
    using mod_less_divisor[of 32 n] by linarith
  then have "shl32 1 (n mod 32) = 2 ^ (n mod 32)" by (rule shl32_one_small)
  moreover have "shl32 1 (n mod 32) = shl32 1 n" by (simp add: shl32_def)
  moreover have "(2::int) ^ (n mod 32) \<le> 2 ^ 30" using le by (intro power_increasing) simp_all
  ultimately show ?thesis by simp
qed

lemma masks_range: "p \<in> set (masks m) \<Longrightarrow> 0 \<le> p \<and> p < 2 ^ 30"
proof -
  assume "p \<in> set (masks m)"
  then obtain k where k: "p = int k" "k < nat (shl32 1 (length (buttons m)))"
    by (auto simp: masks_def)
  then have "int k < shl32 1 (length (buttons m))" by linarith
  with shl32_one_le[of "length (buttons m)"] k(1) show ?thesis by simp
qed

lemma pressCount_bounds: "0 \<le> pressCount p n \<and> pressCount p n \<le> int n"
proof (induction n)
  case 0
  then show ?case by (simp add: pressCount_def)
next
  case (Suc n)
  then show ?case by (simp add: pressCount_def)
qed

lemma smallPatterns_precompute: "smallPatterns (precomputeParityPatterns m)"
  unfolding smallPatterns_def
proof (intro allI impI)
  fix par ps p assume a: "precomputeParityPatterns m par = Some ps \<and> p \<in> set ps"
  then have "p \<in> set (masks m)" using precompute_Some by (metis filter_is_subset subsetD)
  then have "0 \<le> p" "p < 2 ^ 30" using masks_range by simp_all
  then have "countBits p = pressCount p 30" by (intro countBits_pressCount) simp_all
  with pressCount_bounds[of p 30] show "0 \<le> countBits p \<and> countBits p \<le> 30" by simp
qed

lemma solveMachineJoltage_noMemo_fp:
  "solveMachineJoltage_fp m =
     (if length (joltage m) = 0 then Some (replicate (length (buttons m)) 0)
      else solution (solveNoMemo_fp m (precomputeParityPatterns m) (joltage m)))"
  using solveRecursive_memo_fp[OF memo_ok_empty_fp, of m "precomputeParityPatterns m" "joltage m"]
  by (simp add: solveMachineJoltage_fp_def)

lemma solveMachineJoltage_fp_exact:
  assumes "\<forall>v\<in>set (joltage m). v < 2 ^ 47"
  shows "solveMachineJoltage_fp m = solveMachineJoltage m"
  using solveNoMemo_fp_exact[OF smallPatterns_precompute, of 47 "joltage m" m] assms
  by (simp add: solveMachineJoltage_noMemo_fp solveMachineJoltage_noMemo)

subsection \<open>A target above \<open>2 ^ 53\<close>\<close>

text \<open>
  \<open>mBig\<close> is the line \<open>[#] (0) (0) {18014398509481988}\<close>: two buttons on counter 0 and
  the joltage \<open>2 ^ 54 + 4\<close>, which is a double.
\<close>

definition mBig :: Machine where
  "mBig = \<lparr>target = [True], buttons = [[0], [0]], joltage = [18014398509481988]\<rparr>"

lemma mBig_fields: "length (buttons mBig) = 2" "joltage mBig = [18014398509481988]"
  "buttons mBig = [[0], [0]]"
  by (simp_all add: mBig_def)

lemma upt_small: "[0..<2] = [0, Suc 0]" "map int [0..<4] = [0, 1, 2, 3]"
  by code_simp+

lemma mBig_masks: "masks mBig = [0, 1, 2, 3]"
  by (simp add: masks_def mBig_fields shl32_one_small upt_small)

lemma pressed_values:
  "\<not> pressed 0 b" "pressed 1 0" "\<not> pressed 1 (Suc 0)" "\<not> pressed 2 0" "pressed 2 (Suc 0)"
  "pressed 3 0" "pressed 3 (Suc 0)"
  by (simp_all add: pressed_zero pressed_small)

lemma mBig_count:
  "countTouching 0 mBig 0 = 0" "countTouching 1 mBig 0 = 1" "countTouching 2 mBig 0 = 1"
  "countTouching 3 mBig 0 = 2"
  by (simp_all add: countTouching_eq mBig_fields upt_small pressed_values includes_idx_def)

lemma or32_first: "or32 0 (shl32 1 0) = 1"
  by (simp add: or32_def shl32_def toInt32_def)

lemma mBig_parity:
  "computeParity 0 mBig (length (joltage mBig)) = 0" "computeParity 1 mBig (length (joltage mBig)) = 1"
  "computeParity 2 mBig (length (joltage mBig)) = 1" "computeParity 3 mBig (length (joltage mBig)) = 0"
  by (simp_all add: computeParity_def mBig_fields mBig_count and32_one or32_first)

lemma mBig_patterns:
  "precomputeParityPatterns mBig 0 = Some [0, 3]" "precomputeParityPatterns mBig 1 = Some [1, 2]"
  by (simp_all add: precompute_eq mBig_masks mBig_parity)

lemma targetParity_single: "targetParity [t] = (if odd t then 1 else 0)"
  by (simp add: targetParity_def and32_one or32_first odd_iff_mod_2_eq_one)

lemma countBits_values: "countBits 0 = 0" "countBits 1 = 1" "countBits 2 = 1" "countBits 3 = 2"
  by (simp_all add: countBits_def countBits_loop.simps and32_one sar32_def toInt32_def)

lemma mBig_apply:
  "applyPattern_fp p [t] mBig =
     (let newVal = fl (t - countTouching p mBig 0)
      in if newVal < 0 \<or> odd newVal then None else Some [newVal div 2])"
  by (simp add: applyPattern_fp_def applyStep_fp_def and32_one Let_def odd_iff_mod_2_eq_one)

lemma combine_pair:
  "combineSolution_fp p [a, b] =
     [if pressed p 0 then fl (a * 2 + 1) else a * 2, if pressed p (Suc 0) then fl (b * 2 + 1) else b * 2]"
  by (simp add: combineSolution_fp_def upt_small)

lemma fl_exact_le: "\<bar>x\<bar> \<le> 2 ^ 53 \<Longrightarrow> fl x = x"
proof (cases "\<bar>x\<bar> < 2 ^ 53")
  case True
  then show ?thesis by (rule fl_exact)
next
  case False
  assume "\<bar>x\<bar> \<le> 2 ^ 53"
  with False have "x = 9007199254740992 \<or> x = - 9007199254740992" by auto
  moreover have "expo53 9007199254740992 = 1" by (simp add: expo53.simps)
  ultimately show ?thesis by (auto simp: fl_def roundNat_def)
qed

definition allOnFirst :: "int \<Rightarrow> Result" where
  "allOnFirst t = \<lparr>cost = Some t, solution = Some [t, 0]\<rparr>"

lemma better_first:
  assumes "fl (countBits p + 2 * c) = t" "combineSolution_fp p [c, 0] = [t, 0]"
  shows "better_fp p (allOnFirst c) unsolvable = allOnFirst t"
  using assms by (simp add: better_fp_def allOnFirst_def unsolvable_def)

lemma better_second:
  assumes "fl (countBits p + 2 * c) = t"
  shows "better_fp p (allOnFirst c) (allOnFirst t) = allOnFirst t"
  using assms by (simp add: better_fp_def allOnFirst_def)

lemma mBig_closed:
  "0 \<le> t \<Longrightarrow> t \<le> 2 ^ 53 \<Longrightarrow> solveNoMemo_fp mBig (precomputeParityPatterns mBig) [t] = allOnFirst t"
proof (induction "nat t" arbitrary: t rule: less_induct)
  case less
  let ?pp = "precomputeParityPatterns mBig"
  have ex: "\<And>x. 0 \<le> x \<Longrightarrow> x \<le> t \<Longrightarrow> fl x = x"
    using less.prems(2) by (intro fl_exact_le) simp
  show ?case
  proof (cases "t = 0")
    case True
    then show ?thesis
      by (simp add: solveNoMemo_unfold_fp baseResult_def allOnFirst_def mBig_fields numeral_2_eq_2)
  next
    case False
    with less.prems have pos: "0 < t" by simp
    have nz: "\<not> list_all (\<lambda>v. v = 0) [t]" using False by simp
    show ?thesis
    proof (cases "odd t")
      case ev: False
      then have t2: "2 * (t div 2) = t" by simp
      have h1: "0 \<le> t div 2" "t div 2 \<le> 2 ^ 53" "nat (t div 2) < nat t"
        using pos less.prems(2) by simp_all
      have ge2: "2 \<le> t" using pos ev by presburger
      have h2: "0 \<le> t div 2 - 1" "t div 2 - 1 \<le> 2 ^ 53" "nat (t div 2 - 1) < nat t"
        using ge2 less.prems(2) by simp_all
      have s1: "solveNoMemo_fp mBig ?pp [t div 2] = allOnFirst (t div 2)"
        using less.hyps[OF h1(3) h1(1) h1(2)] .
      have s2: "solveNoMemo_fp mBig ?pp [t div 2 - 1] = allOnFirst (t div 2 - 1)"
        using less.hyps[OF h2(3) h2(1) h2(2)] .
      have a1: "applyPattern_fp 0 [t] mBig = Some [t div 2]"
        using ev pos ex[of t] by (simp add: mBig_apply mBig_count)
      have a2: "applyPattern_fp 3 [t] mBig = Some [t div 2 - 1]"
        using ev ge2 ex[of "t - 2"] by (simp add: mBig_apply mBig_count)
      have b1: "better_fp 0 (allOnFirst (t div 2)) unsolvable = allOnFirst t"
        by (rule better_first) (use t2 ex[of t] pos in \<open>simp_all add: countBits_values combine_pair pressed_values mult.commute\<close>)
      have "2 + 2 * (t div 2 - 1) = t" using ev by presburger
      then have b2: "better_fp 3 (allOnFirst (t div 2 - 1)) (allOnFirst t) = allOnFirst t"
        by (intro better_second) (use ex[of t] pos in \<open>simp add: countBits_values\<close>)
      show ?thesis
        using nz ev
        by (subst solveNoMemo_unfold_fp)
          (simp add: targetParity_single mBig_patterns pureStep_fp_def a1 a2 s1 s2 b1 b2)
    next
      case od: True
      then have t2: "2 * ((t - 1) div 2) + 1 = t" by presburger
      have h1: "0 \<le> (t - 1) div 2" "(t - 1) div 2 \<le> 2 ^ 53" "nat ((t - 1) div 2) < nat t"
        using pos less.prems(2) by simp_all
      have s1: "solveNoMemo_fp mBig ?pp [(t - 1) div 2] = allOnFirst ((t - 1) div 2)"
        using less.hyps[OF h1(3) h1(1) h1(2)] .
      have a1: "applyPattern_fp 1 [t] mBig = Some [(t - 1) div 2]"
        "applyPattern_fp 2 [t] mBig = Some [(t - 1) div 2]"
        using od pos ex[of "t - 1"] by (simp_all add: mBig_apply mBig_count)
      have tt: "1 + 2 * ((t - 1) div 2) = t" using t2 by linarith
      have t3: "(t - 1) div 2 * 2 + 1 = t" using t2 by linarith
      have flt: "fl t = t" using ex[of t] pos by simp
      have f: "fl (1 + 2 * ((t - 1) div 2)) = t" by (simp only: tt flt)
      have g1: "fl (countBits 1 + 2 * ((t - 1) div 2)) = t" "fl (countBits 2 + 2 * ((t - 1) div 2)) = t"
        by (simp_all only: countBits_values f)
      have g2: "combineSolution_fp 1 [(t - 1) div 2, 0] = [t, 0]"
        by (simp only: combine_pair pressed_values if_True if_False t3 flt) simp
      have b1: "better_fp 1 (allOnFirst ((t - 1) div 2)) unsolvable = allOnFirst t"
        using g1(1) g2 by (rule better_first)
      have b2: "better_fp 2 (allOnFirst ((t - 1) div 2)) (allOnFirst t) = allOnFirst t"
        using g1(2) by (rule better_second)
      show ?thesis
        using nz od
        by (subst solveNoMemo_unfold_fp)
          (simp add: targetParity_single mBig_patterns pureStep_fp_def a1 s1 b1 b2)
    qed
  qed
qed

text \<open>The rounded recursion on the target \<open>2 ^ 54 + 4\<close>, level by level.\<close>

lemma fl_values:
  "fl 9007199254740994 = 9007199254740994"
  "fl 18014398509481988 = 18014398509481988"
  "fl 18014398509481986 = 18014398509481984"
  "fl 18014398509481985 = 18014398509481984"
  by (simp_all add: fl_def roundNat_def expo53.simps)

lemma mBig_subA:
  "solveNoMemo_fp mBig (precomputeParityPatterns mBig) [9007199254740994] = allOnFirst 9007199254740994"
proof -
  let ?pp = "precomputeParityPatterns mBig"
  have s1: "solveNoMemo_fp mBig ?pp [4503599627370497] = allOnFirst 4503599627370497"
    by (rule mBig_closed) simp_all
  have s2: "solveNoMemo_fp mBig ?pp [4503599627370496] = allOnFirst 4503599627370496"
    by (rule mBig_closed) simp_all
  have a1: "applyPattern_fp 0 [9007199254740994] mBig = Some [4503599627370497]"
    by (simp add: mBig_apply mBig_count fl_values)
  have a2: "applyPattern_fp 3 [9007199254740994] mBig = Some [4503599627370496]"
    by (simp add: mBig_apply mBig_count fl_exact_le)
  have b1: "better_fp 0 (allOnFirst 4503599627370497) unsolvable = allOnFirst 9007199254740994"
    by (rule better_first) (simp_all add: countBits_values combine_pair pressed_values fl_values)
  have b2: "better_fp 3 (allOnFirst 4503599627370496) (allOnFirst 9007199254740994) = allOnFirst 9007199254740994"
    by (rule better_second) (simp add: countBits_values fl_values)
  show ?thesis
    by (subst solveNoMemo_unfold_fp)
      (simp add: targetParity_single mBig_patterns pureStep_fp_def a1 a2 s1 s2 b1 b2)
qed

lemma mBig_subB:
  "solveNoMemo_fp mBig (precomputeParityPatterns mBig) [9007199254740992] = allOnFirst 9007199254740992"
  by (rule mBig_closed) simp_all

lemma mBig_result:
  "solveNoMemo_fp mBig (precomputeParityPatterns mBig) [18014398509481988] =
     \<lparr>cost = Some 18014398509481984, solution = Some [18014398509481984, 1]\<rparr>"
proof -
  have a1: "applyPattern_fp 0 [18014398509481988] mBig = Some [9007199254740994]"
    by (simp add: mBig_apply mBig_count fl_values)
  have a2: "applyPattern_fp 3 [18014398509481988] mBig = Some [9007199254740992]"
    by (simp add: mBig_apply mBig_count fl_values)
  have b1: "better_fp 0 (allOnFirst 9007199254740994) unsolvable = allOnFirst 18014398509481988"
    by (rule better_first) (simp_all add: countBits_values combine_pair pressed_values fl_values)
  have b2: "better_fp 3 (allOnFirst 9007199254740992) (allOnFirst 18014398509481988) =
      \<lparr>cost = Some 18014398509481984, solution = Some [18014398509481984, 1]\<rparr>"
    by (simp add: better_fp_def allOnFirst_def countBits_values combine_pair pressed_values fl_values fl_exact)
  show ?thesis
    by (subst solveNoMemo_unfold_fp)
      (simp add: targetParity_single mBig_patterns pureStep_fp_def a1 a2 mBig_subA mBig_subB b1 b2)
qed

lemma mBig_returned: "solveMachineJoltage_fp mBig = Some [18014398509481984, 1]"
  by (simp add: solveMachineJoltage_noMemo_fp mBig_fields mBig_result)

lemma mBig_counter: "counterSum mBig [a, b] 0 = a + b"
  by (simp add: counterSum_def mBig_fields upt_small includes_idx_def)

lemma mBig_not_satisfied: "\<not> satisfies mBig (joltage mBig) [18014398509481984, 1]"
  by (simp add: satisfies_def mBig_fields mBig_counter)

lemma mBig_satisfiable: "satisfies mBig (joltage mBig) [18014398509481988, 0]"
  by (simp add: satisfies_def mBig_fields mBig_counter nth_Cons')

section \<open>Claims about the reduction solver in double arithmetic\<close>

lemma solveNoMemo_fp_small:
  "\<forall>v\<in>set tgt. v < 2 ^ 47 \<Longrightarrow>
     solveNoMemo_fp m (precomputeParityPatterns m) tgt = solveNoMemo m (precomputeParityPatterns m) tgt"
  using solveNoMemo_fp_exact[OF smallPatterns_precompute, of 47 tgt m] by simp

lemma mW_solution_fp: "solveMachineJoltage_fp mW = Some [1, 2]"
  using solveMachineJoltage_fp_exact[of mW] mW_solution by (simp add: mW_fields)

lemma mW_result_fp:
  "fst (solveRecursive_fp mW (precomputeParityPatterns mW) [3, 2] Map.empty) = \<lparr>cost = Some 3, solution = Some [1, 2]\<rparr>"
  using solveRecursive_memo_fp[OF memo_ok_empty_fp, of mW "precomputeParityPatterns mW" "[3, 2]"]
    solveRecursive_memo[OF memo_ok_empty, of mW "precomputeParityPatterns mW" "[3, 2]"]
    solveNoMemo_fp_small[of "[3, 2]" mW] mW_result
  by simp

lemma m31_unsolved_fp: "solveMachineJoltage_fp m31 = None"
  using solveMachineJoltage_fp_exact[of m31] m31_unsolved by (simp add: m31_fields)

lemma m33_result_fp:
  "fst (solveRecursive_fp m33 (precomputeParityPatterns m33) (joltage m33) Map.empty) =
     \<lparr>cost = Some 1, solution = Some (combineSolution 1 (replicate 33 0))\<rparr>"
  using solveRecursive_memo_fp[OF memo_ok_empty_fp, of m33 "precomputeParityPatterns m33" "[2]"]
    solveNoMemo_fp_small[of "[2]" m33] m33_result
  by (simp add: m33_len)

lemma mBig_recursive:
  "fst (solveRecursive_fp mBig (precomputeParityPatterns mBig) (joltage mBig) Map.empty) =
     \<lparr>cost = Some 18014398509481984, solution = Some [18014398509481984, 1]\<rparr>"
  using solveRecursive_memo_fp[OF memo_ok_empty_fp, of mBig "precomputeParityPatterns mBig" "[18014398509481988]"]
  by (simp add: mBig_fields mBig_result)

text \<open>
  \<^bold>\<open>C3\<close> (as the code has it). When every joltage entry is below \<open>2 ^ 47\<close> and
  \<open>solveMachineJoltage\<close>, run in double arithmetic, returns a press vector, the vector has one
  entry per button, every entry is a non-negative integer, and for every counter the presses
  of the buttons touching it add up to the counter's joltage.
\<close>

theorem joltage_solution_satisfies:
  assumes "\<forall>v\<in>set (joltage m). v < 2 ^ 47"
    and "solveMachineJoltage_fp m = Some presses"
  shows "satisfies m (joltage m) presses"
  using assms solveMachineJoltage_fp_exact[of m] solveMachineJoltage_sound[of m presses] by simp

theorem joltage_solution_satisfies_witness:
  "joltage mW = [3, 2] \<and> solveMachineJoltage_fp mW = Some [1, 2] \<and> satisfies mW (joltage mW) [1, 2]"
  using joltage_solution_satisfies[of mW "[1, 2]"] mW_solution_fp by (simp add: mW_fields)

text \<open>
  The claim as stated, for every machine, fails above \<open>2 ^ 53\<close>: on two buttons that both
  touch the only counter, with joltage \<open>2 ^ 54 + 4\<close>, the rounded arithmetic returns the
  presses \<open>2 ^ 54\<close> and \<open>1\<close>, which put the counter at \<open>2 ^ 54 + 1\<close>.
\<close>

theorem joltage_solution_satisfies_counterexample:
  "solveMachineJoltage_fp mBig = Some [18014398509481984, 1] \<and>
   counterSum mBig [18014398509481984, 1] 0 = 18014398509481985 \<and>
   joltage mBig ! 0 = 18014398509481988 \<and>
   \<not> satisfies mBig (joltage mBig) [18014398509481984, 1]"
  using mBig_returned mBig_not_satisfied by (simp add: mBig_counter mBig_fields)

text \<open>
  \<^bold>\<open>C10\<close> (as the code has it). For a machine with at most 32 buttons and a target whose
  entries are below \<open>2 ^ 47\<close>, every Result of the recursion has \<open>cost\<close> null exactly when
  \<open>solution\<close> is null, and otherwise \<open>cost\<close> is the sum of the press vector, whose entries are
  all non-negative. Both bounds are needed: button masks are 32-bit integers, and from 33
  buttons on a shift count wraps around, so that one mask bit stands for two buttons while
  \<open>countBits\<close> counts it once; and costs and press counts are doubles, rounded above
  \<open>2 ^ 53\<close>.
\<close>

theorem result_invariant:
  assumes "length (buttons m) \<le> 32"
    and "\<forall>v\<in>set tgt. v < 2 ^ 47"
    and "memo_ok_fp m (precomputeParityPatterns m) memo"
    and "r = fst (solveRecursive_fp m (precomputeParityPatterns m) tgt memo)"
  shows "(cost r = None \<longleftrightarrow> solution r = None) \<and>
         (\<forall>c s. cost r = Some c \<and> solution r = Some s \<longrightarrow> c = sum_list s \<and> (\<forall>x\<in>set s. 0 \<le> x))"
proof -
  let ?pp = "precomputeParityPatterns m"
  have "r = solveNoMemo_fp m ?pp tgt" using assms(3,4) solveRecursive_memo_fp by blast
  then have r: "r = solveNoMemo m ?pp tgt" using solveNoMemo_fp_small[OF assms(2)] by simp
  have snd: "sound m tgt r" unfolding r by (rule solveNoMemo_sound)
  have cok: "costOK r" unfolding r by (rule solveNoMemo_costOK) (rule popOK_precompute[OF assms(1)])
  have a: "cost r = None \<longleftrightarrow> solution r = None"
    using snd by (auto simp: sound_def split: option.splits)
  have b: "\<forall>c s. cost r = Some c \<and> solution r = Some s \<longrightarrow> c = sum_list s \<and> (\<forall>x\<in>set s. 0 \<le> x)"
  proof (intro allI impI)
    fix c s assume cs: "cost r = Some c \<and> solution r = Some s"
    with cok have "c = sum_list s" by (simp add: costOK_def)
    moreover from snd cs have "satisfies m tgt s" by (simp add: sound_def)
    then have "\<forall>x\<in>set s. 0 \<le> x" by (auto simp: satisfies_def in_set_conv_nth)
    ultimately show "c = sum_list s \<and> (\<forall>x\<in>set s. 0 \<le> x)" by simp
  qed
  from a b show ?thesis by simp
qed

theorem result_invariant_witness:
  "length (buttons mW) \<le> 32 \<and> memo_ok_fp mW (precomputeParityPatterns mW) Map.empty \<and>
   fst (solveRecursive_fp mW (precomputeParityPatterns mW) [3, 2] Map.empty) = \<lparr>cost = Some 3, solution = Some [1, 2]\<rparr> \<and>
   (3::int) = sum_list [1, 2] \<and> list_all (\<lambda>x. 0 \<le> x) [1, 2::int]"
proof -
  have "length (buttons mW) \<le> 32" by (simp add: mW_fields)
  moreover have "\<forall>v\<in>set [3, 2::int]. v < 2 ^ 47" by simp
  ultimately show ?thesis
    using result_invariant[OF _ _ memo_ok_empty_fp refl, of mW "[3, 2]"] mW_result_fp memo_ok_empty_fp
    by simp
qed

text \<open>
  The claim as stated, for every machine, fails at 33 buttons: with every button touching
  counter 0 and joltage 2, mask 1 selects buttons 0 and 32, the Result has cost 1 and a
  press vector that sums to 2. It also fails above \<open>2 ^ 53\<close>: on two buttons touching the
  only counter, with joltage \<open>2 ^ 54 + 4\<close>, the Result has cost \<open>2 ^ 54\<close> and a press vector
  that sums to \<open>2 ^ 54 + 1\<close>.
\<close>

theorem result_invariant_counterexample:
  "fst (solveRecursive_fp m33 (precomputeParityPatterns m33) (joltage m33) Map.empty) =
     \<lparr>cost = Some 1, solution = Some (combineSolution 1 (replicate 33 0))\<rparr> \<and>
   sum_list (combineSolution 1 (replicate 33 0)) = 2 \<and>
   fst (solveRecursive_fp mBig (precomputeParityPatterns mBig) (joltage mBig) Map.empty) =
     \<lparr>cost = Some 18014398509481984, solution = Some [18014398509481984, 1]\<rparr> \<and>
   sum_list [18014398509481984, 1::int] = 18014398509481985"
  using m33_result_fp m33_sum mBig_recursive by simp

text \<open>
  \<^bold>\<open>C2\<close> (as the code has it). For a machine with at most 30 buttons and a non-empty joltage
  vector whose entries are below \<open>2 ^ 47\<close>, \<open>solveMachineJoltage\<close>, run in double arithmetic,
  returns null exactly when no vector of non-negative press counts satisfies the machine,
  and otherwise returns a satisfying vector whose sum is the least sum of any satisfying
  vector.
\<close>

theorem joltage_minimum:
  assumes "length (buttons m) \<le> 30" and "joltage m \<noteq> []"
    and "\<forall>v\<in>set (joltage m). v < 2 ^ 47"
  shows "case solveMachineJoltage_fp m of
           None \<Rightarrow> (\<forall>q. \<not> satisfies m (joltage m) q)
         | Some s \<Rightarrow> satisfies m (joltage m) s \<and>
                      (\<forall>q. satisfies m (joltage m) q \<longrightarrow> sum_list s \<le> sum_list q)"
proof -
  let ?pp = "precomputeParityPatterns m"
  let ?r = "solveNoMemo m ?pp (joltage m)"
  have "solveMachineJoltage_fp m = solveMachineJoltage m"
    by (rule solveMachineJoltage_fp_exact[OF assms(3)])
  then have sol: "solveMachineJoltage_fp m = solution ?r"
    using assms(2) by (simp add: solveMachineJoltage_noMemo)
  have snd: "sound m (joltage m) ?r" by (rule solveNoMemo_sound)
  have cok: "costOK ?r"
    by (rule solveNoMemo_costOK) (rule popOK_precompute, use assms(1) in simp)
  have least: "\<And>q. satisfies m (joltage m) q \<Longrightarrow> atMost ?r (sum_list q)"
    using solveNoMemo_complete[OF assms(1) refl] .
  show ?thesis
  proof (cases "solution ?r")
    case None
    with snd have "cost ?r = None" by (auto simp: sound_def split: option.splits)
    with least have "\<forall>q. \<not> satisfies m (joltage m) q" by (auto simp: atMost_def)
    with None sol show ?thesis by simp
  next
    case (Some s)
    with snd obtain c where c: "cost ?r = Some c" and sat: "satisfies m (joltage m) s"
      by (auto simp: sound_def split: option.splits)
    with cok Some have "c = sum_list s" by (simp add: costOK_def)
    with least c have "\<forall>q. satisfies m (joltage m) q \<longrightarrow> sum_list s \<le> sum_list q"
      by (auto simp: atMost_def)
    with sat Some sol show ?thesis by simp
  qed
qed

theorem joltage_minimum_witness:
  "length (buttons mW) \<le> 30 \<and> joltage mW = [3, 2] \<and> solveMachineJoltage_fp mW = Some [1, 2] \<and>
   satisfies mW (joltage mW) [1, 2] \<and>
   \<not> (\<exists>q. satisfies mW (joltage mW) q \<and> sum_list q < 3)"
proof -
  have a: "length (buttons mW) \<le> 30" and b: "joltage mW \<noteq> []"
    and c: "\<forall>v\<in>set (joltage mW). v < 2 ^ 47" by (simp_all add: mW_fields)
  from joltage_minimum[OF a b c] mW_solution_fp a show ?thesis by (simp add: not_less mW_fields)
qed

text \<open>
  The claim as stated, for every machine, fails at 31 buttons: \<open>1 << 31\<close> is negative, the
  pattern table stays empty, and a machine that one press would satisfy is reported
  unsolvable. It also fails above \<open>2 ^ 53\<close>: on two buttons touching the only counter, with
  joltage \<open>2 ^ 54 + 4\<close>, pressing the first button \<open>2 ^ 54 + 4\<close> times satisfies the machine,
  and the vector returned does not.
\<close>

theorem joltage_minimum_counterexample:
  "joltage m31 \<noteq> [] \<and> solveMachineJoltage_fp m31 = None \<and>
   satisfies m31 (joltage m31) (1 # replicate 30 0) \<and>
   joltage mBig \<noteq> [] \<and> solveMachineJoltage_fp mBig = Some [18014398509481984, 1] \<and>
   \<not> satisfies mBig (joltage mBig) [18014398509481984, 1] \<and>
   satisfies mBig (joltage mBig) [18014398509481988, 0]"
  using m31_unsolved_fp m31_satisfied mBig_returned mBig_not_satisfied mBig_satisfiable
  by (simp add: m31_fields mBig_fields)

section \<open>Reading the input\<close>

text \<open>
  \<open>parseInput\<close> splits the text at line feeds, trims each line and drops the empty ones.
  From each line it takes the first match of \<open>\[([.#]+)\]\<close>, every match of
  \<open>\(([0-9,]+)\)\<close> and the first match of \<open>\{([0-9,]+)\}\<close>. Each expression is an
  opening character, one or more characters of a class that holds neither delimiter, and a
  closing character, so a match at a position is decided by the longest run of class
  characters after the opening one (\<open>matchGroup\<close>); \<open>firstMatch\<close> scans for the leftmost
  match, \<open>matchAll\<close> for all of them, each search starting where the last match ended.

  A \<open>char\<close> stands for a UTF-16 code unit below 256; the white space that \<open>trim\<close> removes
  in that range is tab, line feed, vertical tab, form feed, carriage return, space and the
  no-break space. \<open>Number\<close> is only ever applied to a string of decimal digits, possibly
  empty (\<open>Number('') = 0\<close>): it gives the double nearest to the decimal value, and
  \<open>Infinity\<close> from \<open>2 ^ 1024 - 2 ^ 970\<close> on. Since a parsed number can be \<open>Infinity\<close>,
  the parsed line is a record of its own, with \<open>jsnum\<close> entries; \<open>embed\<close> maps a machine
  with integer entries to it.
\<close>

record ParsedMachine =
  ptarget :: "bool list"
  pbuttons :: "jsnum list list"
  pjoltage :: "jsnum list"

definition embed :: "Machine \<Rightarrow> ParsedMachine" where
  "embed m = \<lparr>ptarget = target m, pbuttons = map (map Fin) (buttons m), pjoltage = map Fin (joltage m)\<rparr>"

fun split :: "char \<Rightarrow> string \<Rightarrow> string list" where
  "split sep [] = [[]]"
| "split sep (c # cs) =
     (if c = sep then [] # split sep cs
      else (case split sep cs of [] \<Rightarrow> [[c]] | x # xs \<Rightarrow> (c # x) # xs))"

definition isWhiteSpace :: "char \<Rightarrow> bool" where
  "isWhiteSpace c = (c \<in> set [CHR 0x09, CHR 0x0A, CHR 0x0B, CHR 0x0C, CHR 0x0D, CHR 0x20, CHR 0xA0])"

definition trim :: "string \<Rightarrow> string" where
  "trim s = rev (dropWhile isWhiteSpace (rev (dropWhile isWhiteSpace s)))"

definition matchGroup :: "char \<Rightarrow> (char \<Rightarrow> bool) \<Rightarrow> char \<Rightarrow> string \<Rightarrow> (string \<times> string) option" where
  "matchGroup opening cls closing s =
     (case s of
        [] \<Rightarrow> None
      | c # rest \<Rightarrow>
          if c \<noteq> opening then None
          else
            let body = takeWhile cls rest; after = dropWhile cls rest
            in if body = [] then None
               else (case after of
                       [] \<Rightarrow> None
                     | d # rest' \<Rightarrow> if d = closing then Some (body, rest') else None))"

fun firstMatch :: "char \<Rightarrow> (char \<Rightarrow> bool) \<Rightarrow> char \<Rightarrow> string \<Rightarrow> string option" where
  "firstMatch opening cls closing [] = None"
| "firstMatch opening cls closing (c # cs) =
     (case matchGroup opening cls closing (c # cs) of
        Some (body, rest) \<Rightarrow> Some body
      | None \<Rightarrow> firstMatch opening cls closing cs)"

lemma matchGroup_shorter:
  "matchGroup opening cls closing s = Some (body, rest) \<Longrightarrow> length rest < length s"
proof -
  assume a: "matchGroup opening cls closing s = Some (body, rest)"
  then obtain c s' where s: "s = c # s'" by (cases s) (simp_all add: matchGroup_def)
  from a s obtain d where "dropWhile cls s' = d # rest"
    by (auto simp: matchGroup_def Let_def split: if_splits list.splits)
  then have "length rest < length (dropWhile cls s')" by simp
  also have "\<dots> \<le> length s'" by (rule length_dropWhile_le)
  finally show ?thesis using s by simp
qed

function matchAll :: "char \<Rightarrow> (char \<Rightarrow> bool) \<Rightarrow> char \<Rightarrow> string \<Rightarrow> string list" where
  "matchAll opening cls closing [] = []"
| "matchAll opening cls closing (c # cs) =
     (case matchGroup opening cls closing (c # cs) of
        Some (body, rest) \<Rightarrow> body # matchAll opening cls closing rest
      | None \<Rightarrow> matchAll opening cls closing cs)"
  by pat_completeness auto
termination
  by (relation "measure (\<lambda>(opening, cls, closing, s). length s)")
    (auto dest: matchGroup_shorter)

definition isPatternChar :: "char \<Rightarrow> bool" where
  "isPatternChar c = (c = CHR ''.'' \<or> c = CHR ''#'')"

definition isIndexChar :: "char \<Rightarrow> bool" where
  "isIndexChar c = (c \<in> set ''0123456789,'')"

definition decimalValue :: "string \<Rightarrow> nat" where
  "decimalValue s = fold (\<lambda>c n. 10 * n + (of_char c - 48)) s 0"

definition jsNumber :: "string \<Rightarrow> jsnum" where
  "jsNumber s =
     (let v = int (decimalValue s)
      in if v < 2 ^ 1024 - 2 ^ 970 then Fin (fl v) else Infinity)"

definition parseLine :: "string \<Rightarrow> string + ParsedMachine" where
  "parseLine line =
     (case firstMatch (CHR ''['') isPatternChar (CHR '']'') line of
        None \<Rightarrow> Inl (''Invalid pattern: '' @ line)
      | Some pattern \<Rightarrow>
          Inr \<lparr>ptarget = map (\<lambda>ch. ch = CHR ''#'') pattern,
               pbuttons = map (\<lambda>buttonStr. map jsNumber (split (CHR '','') buttonStr))
                           (matchAll (CHR ''('') isIndexChar (CHR '')'') line),
               pjoltage = (case firstMatch (CHR ''{'') isIndexChar (CHR ''}'') line of
                            Some joltageStr \<Rightarrow> map jsNumber (split (CHR '','') joltageStr)
                          | None \<Rightarrow> [])\<rparr>)"

fun parseLines :: "string list \<Rightarrow> string + ParsedMachine list" where
  "parseLines [] = Inr []"
| "parseLines (line # rest) =
     (case parseLine line of
        Inl e \<Rightarrow> Inl e
      | Inr machine \<Rightarrow>
          (case parseLines rest of
             Inl e \<Rightarrow> Inl e
           | Inr machines \<Rightarrow> Inr (machine # machines)))"

definition inputLines :: "string \<Rightarrow> string list" where
  "inputLines input = filter (\<lambda>line. length line > 0) (map trim (split (CHR 0x0A) input))"

definition parseInput :: "string \<Rightarrow> string + ParsedMachine list" where
  "parseInput input = parseLines (inputLines input)"

text \<open>A line has a light pattern when it contains \<open>[\<close>, one or more of \<open>.\<close> and \<open>#\<close>, then \<open>]\<close>.\<close>

definition hasPattern :: "string \<Rightarrow> bool" where
  "hasPattern line =
     (\<exists>pre body post. line = pre @ [CHR ''[''] @ body @ [CHR '']''] @ post \<and> body \<noteq> [] \<and>
        (\<forall>c\<in>set body. isPatternChar c))"

lemma matchGroup_SomeD:
  assumes "matchGroup opening cls closing s = Some (body, rest)"
  shows "s = [opening] @ body @ [closing] @ rest \<and> body \<noteq> [] \<and> (\<forall>c\<in>set body. cls c)"
proof -
  from assms obtain c s' where s: "s = c # s'" by (cases s) (simp_all add: matchGroup_def)
  from assms s have c: "c = opening" and b: "body = takeWhile cls s'" and ne: "body \<noteq> []"
    and d: "dropWhile cls s' = closing # rest"
    by (auto simp: matchGroup_def Let_def split: if_splits list.splits)
  have "s' = takeWhile cls s' @ dropWhile cls s'" by simp
  with b d have "s' = body @ closing # rest" by simp
  moreover have "\<forall>c\<in>set body. cls c" unfolding b by (auto dest: set_takeWhileD)
  ultimately show ?thesis using s c ne by simp
qed

lemma matchGroup_at:
  assumes "body \<noteq> []" "\<forall>c\<in>set body. cls c" "\<not> cls closing"
  shows "matchGroup opening cls closing ([opening] @ body @ [closing] @ rest) = Some (body, rest)"
proof -
  have "takeWhile cls (body @ closing # rest) = body"
    using assms(2,3) by (simp add: takeWhile_append2)
  moreover have "dropWhile cls (body @ closing # rest) = closing # rest"
    using assms(2,3) by (simp add: dropWhile_append2)
  ultimately show ?thesis using assms(1) by (simp add: matchGroup_def)
qed

declare firstMatch.simps [simp del]

lemma firstMatch_None_step:
  "matchGroup opening cls closing (x # xs) = None \<Longrightarrow>
     firstMatch opening cls closing (x # xs) = firstMatch opening cls closing xs"
  by (simp only: firstMatch.simps option.case)

lemma firstMatch_Some_step:
  "matchGroup opening cls closing (x # xs) = Some (b, r) \<Longrightarrow>
     firstMatch opening cls closing (x # xs) = Some b"
  by (simp only: firstMatch.simps option.case prod.case)

lemma firstMatch_SomeD:
  "firstMatch opening cls closing s = Some body \<Longrightarrow>
     \<exists>pre post. s = pre @ [opening] @ body @ [closing] @ post \<and> body \<noteq> [] \<and> (\<forall>c\<in>set body. cls c)"
proof (induction s)
  case Nil
  then show ?case by (simp add: firstMatch.simps)
next
  case (Cons x xs)
  show ?case
  proof (cases "matchGroup opening cls closing (x # xs)")
    case None
    from Cons.prems firstMatch_None_step[OF None]
    have "firstMatch opening cls closing xs = Some body" by simp
    from Cons.IH[OF this] obtain pre post where
      p: "xs = pre @ [opening] @ body @ [closing] @ post" "body \<noteq> []" "\<forall>c\<in>set body. cls c" by blast
    from p(1) have "x # xs = (x # pre) @ [opening] @ body @ [closing] @ post" by simp
    with p(2,3) show ?thesis by blast
  next
    case (Some p)
    obtain b r where p: "p = (b, r)" by (cases p)
    from Some p have mg: "matchGroup opening cls closing (x # xs) = Some (b, r)" by simp
    from Cons.prems firstMatch_Some_step[OF mg] have "b = body" by simp
    with matchGroup_SomeD[OF mg]
    have "x # xs = [] @ [opening] @ body @ [closing] @ r" "body \<noteq> []" "\<forall>c\<in>set body. cls c" by simp_all
    then show ?thesis by blast
  qed
qed

lemma firstMatch_found:
  assumes "body \<noteq> []" "\<forall>c\<in>set body. cls c" "\<not> cls closing"
  shows "firstMatch opening cls closing (pre @ [opening] @ body @ [closing] @ post) \<noteq> None"
proof (induction pre)
  case Nil
  have "matchGroup opening cls closing (opening # body @ [closing] @ post) = Some (body, post)"
    using matchGroup_at[OF assms, of "opening" post] by simp
  from firstMatch_Some_step[OF this] show ?case by simp
next
  case (Cons x pre)
  let ?s = "pre @ [opening] @ body @ [closing] @ post"
  have eq: "(x # pre) @ [opening] @ body @ [closing] @ post = x # ?s" by simp
  have "firstMatch opening cls closing (x # ?s) \<noteq> None"
  proof (cases "matchGroup opening cls closing (x # ?s)")
    case None
    from firstMatch_None_step[OF None] Cons show ?thesis by simp
  next
    case (Some p)
    obtain b r where "p = (b, r)" by (cases p)
    with Some have "matchGroup opening cls closing (x # ?s) = Some (b, r)" by simp
    from firstMatch_Some_step[OF this] show ?thesis by simp
  qed
  then show ?case unfolding eq .
qed

lemma firstMatch_pattern: "firstMatch (CHR ''['') isPatternChar (CHR '']'') line \<noteq> None \<longleftrightarrow> hasPattern line"
proof
  assume "firstMatch (CHR ''['') isPatternChar (CHR '']'') line \<noteq> None"
  then obtain body where "firstMatch (CHR ''['') isPatternChar (CHR '']'') line = Some body" by blast
  from firstMatch_SomeD[OF this] show "hasPattern line"
    unfolding hasPattern_def by blast
next
  assume "hasPattern line"
  then obtain pre body post where l: "line = pre @ [CHR ''[''] @ body @ [CHR '']''] @ post"
    and b: "body \<noteq> []" "\<forall>c\<in>set body. isPatternChar c"
    unfolding hasPattern_def by blast
  have c: "\<not> isPatternChar (CHR '']'')" by (simp add: isPatternChar_def)
  show "firstMatch (CHR ''['') isPatternChar (CHR '']'') line \<noteq> None"
    unfolding l by (rule firstMatch_found[OF b c])
qed

lemma parseLine_error: "parseLine line = Inl e \<longleftrightarrow> e = ''Invalid pattern: '' @ line \<and> \<not> hasPattern line"
proof (cases "firstMatch (CHR ''['') isPatternChar (CHR '']'') line")
  case None
  with firstMatch_pattern[of line] have "\<not> hasPattern line" by simp
  with None show ?thesis by (auto simp: parseLine_def)
next
  case (Some p)
  with firstMatch_pattern[of line] have "hasPattern line" by simp
  with Some show ?thesis by (simp add: parseLine_def)
qed

lemma parseLine_cases:
  "(\<not> hasPattern line \<and> parseLine line = Inl (''Invalid pattern: '' @ line)) \<or>
   (hasPattern line \<and> (\<exists>mach. parseLine line = Inr mach))"
  using parseLine_error[of line] by (cases "parseLine line") auto

lemma parseLines_error_gen:
  assumes pc: "\<And>l. (\<not> P l \<and> parseLine l = Inl (f l)) \<or> (P l \<and> (\<exists>mach. parseLine l = Inr mach))"
  shows "parseLines ls = Inl e \<longleftrightarrow>
     (\<exists>pre l post. ls = pre @ l # post \<and> (\<forall>x\<in>set pre. P x) \<and> \<not> P l \<and> e = f l)"
proof (induction ls)
  case Nil
  then show ?case by simp
next
  case (Cons x xs)
  show ?case
  proof (cases "P x")
    case False
    with pc[of x] have px: "parseLine x = Inl (f x)" by auto
    show ?thesis
    proof
      assume "parseLines (x # xs) = Inl e"
      with px have "e = f x" by simp
      with False have "x # xs = [] @ x # xs \<and> (\<forall>y\<in>set []. P y) \<and> \<not> P x \<and> e = f x" by simp
      then show "\<exists>pre l post. x # xs = pre @ l # post \<and> (\<forall>x\<in>set pre. P x) \<and> \<not> P l \<and> e = f l"
        by blast
    next
      assume "\<exists>pre l post. x # xs = pre @ l # post \<and> (\<forall>x\<in>set pre. P x) \<and> \<not> P l \<and> e = f l"
      then obtain pre l post where a: "x # xs = pre @ l # post" "\<forall>x\<in>set pre. P x"
        "\<not> P l" "e = f l" by blast
      from a(1,2) False have "pre = []" by (cases pre) auto
      with a(1) have "l = x" by simp
      with a(4) px show "parseLines (x # xs) = Inl e" by simp
    qed
  next
    case True
    with pc[of x] obtain mach where px: "parseLine x = Inr mach" by auto
    have step: "parseLines (x # xs) = Inl e \<longleftrightarrow> parseLines xs = Inl e"
      using px by (cases "parseLines xs") simp_all
    show ?thesis
    proof
      assume "parseLines (x # xs) = Inl e"
      with step Cons.IH obtain pre l post where a: "xs = pre @ l # post" "\<forall>x\<in>set pre. P x"
        "\<not> P l" "e = f l" by blast
      from a True have "x # xs = (x # pre) @ l # post \<and> (\<forall>y\<in>set (x # pre). P y) \<and>
        \<not> P l \<and> e = f l" by simp
      then show "\<exists>pre l post. x # xs = pre @ l # post \<and> (\<forall>x\<in>set pre. P x) \<and> \<not> P l \<and> e = f l"
        by blast
    next
      assume "\<exists>pre l post. x # xs = pre @ l # post \<and> (\<forall>x\<in>set pre. P x) \<and> \<not> P l \<and> e = f l"
      then obtain pre l post where a: "x # xs = pre @ l # post" "\<forall>x\<in>set pre. P x"
        "\<not> P l" "e = f l" by blast
      from a(1,3) True obtain pre' where p: "pre = x # pre'" by (cases pre) auto
      with a have "xs = pre' @ l # post \<and> (\<forall>x\<in>set pre'. P x) \<and> \<not> P l \<and> e = f l" by simp
      then have "parseLines xs = Inl e" using Cons.IH by blast
      with step show "parseLines (x # xs) = Inl e" by simp
    qed
  qed
qed

lemma parseLines_error:
  "parseLines ls = Inl e \<longleftrightarrow>
     (\<exists>pre l post. ls = pre @ l # post \<and> (\<forall>x\<in>set pre. hasPattern x) \<and> \<not> hasPattern l \<and>
        e = ''Invalid pattern: '' @ l)"
  by (rule parseLines_error_gen[of hasPattern "\<lambda>l. ''Invalid pattern: '' @ l"]) (rule parseLine_cases)

lemma parseLines_ok: "parseLines ls = Inr machines \<Longrightarrow> (\<forall>l\<in>set ls. hasPattern l) \<and> length machines = length ls"
proof (induction ls arbitrary: machines)
  case Nil
  then show ?case by simp
next
  case (Cons x xs)
  from Cons.prems obtain mach ms where m: "parseLine x = Inr mach" "parseLines xs = Inr ms" "machines = mach # ms"
    by (auto split: sum.splits)
  from m(1) parseLine_cases[of x] have "hasPattern x" by auto
  with Cons.IH[OF m(2)] m(3) show ?case by simp
qed

text \<open>
  \<^bold>\<open>C8\<close> (as the code has it). A line without a bracketed light pattern makes \<open>parseLine\<close>
  fail with \<open>Invalid pattern\<close> and the line, and that is its only error: a line with a
  pattern always parses, whatever its button groups hold. \<open>parseInput\<close> fails exactly when
  some line lacks the pattern, with that error for the first such line; and when it
  succeeds, every line had a pattern and gave one machine.
\<close>

theorem malformed_pattern_rejected:
  "(parseLine line = Inl e \<longleftrightarrow> e = ''Invalid pattern: '' @ line \<and> \<not> hasPattern line) \<and>
   (parseInput input = Inl e \<longleftrightarrow>
      (\<exists>pre l post. inputLines input = pre @ l # post \<and> (\<forall>x\<in>set pre. hasPattern x) \<and>
         \<not> hasPattern l \<and> e = ''Invalid pattern: '' @ l)) \<and>
   (parseInput input = Inr machines \<longrightarrow>
      (\<forall>l\<in>set (inputLines input). hasPattern l) \<and> length machines = length (inputLines input))"
proof (intro conjI)
  show "parseLine line = Inl e \<longleftrightarrow> e = ''Invalid pattern: '' @ line \<and> \<not> hasPattern line"
    by (rule parseLine_error)
  show "parseInput input = Inl e \<longleftrightarrow>
      (\<exists>pre l post. inputLines input = pre @ l # post \<and> (\<forall>x\<in>set pre. hasPattern x) \<and>
         \<not> hasPattern l \<and> e = ''Invalid pattern: '' @ l)"
    unfolding parseInput_def by (rule parseLines_error)
  show "parseInput input = Inr machines \<longrightarrow>
      (\<forall>l\<in>set (inputLines input). hasPattern l) \<and> length machines = length (inputLines input)"
    unfolding parseInput_def using parseLines_ok by blast
qed

lemma no_bracket_no_pattern: "CHR ''['' \<notin> set line \<Longrightarrow> \<not> hasPattern line"
  by (auto simp: hasPattern_def)

lemma inputLines_example: "inputLines ('' [.#]  '' @ [CHR 0x0A, CHR 0x0A] @ ''(1) {2}'') = [''[.#]'', ''(1) {2}'']"
  by code_simp

theorem malformed_pattern_rejected_witness:
  "\<not> hasPattern ''(1) {2}'' \<and>
   parseLine ''(1) {2}'' = Inl ''Invalid pattern: (1) {2}'' \<and>
   parseInput ('' [.#]  '' @ [CHR 0x0A, CHR 0x0A] @ ''(1) {2}'') = Inl ''Invalid pattern: (1) {2}''"
proof -
  define good where "good = ''[.#]''"
  define bad where "bad = ''(1) {2}''"
  define input where "input = '' [.#]  '' @ [CHR 0x0A, CHR 0x0A] @ ''(1) {2}''"
  define msg where "msg = ''Invalid pattern: '' @ bad"
  have np: "\<not> hasPattern bad" unfolding bad_def by (rule no_bracket_no_pattern) simp
  have "good = [] @ [CHR ''[''] @ ''.#'' @ [CHR '']''] @ [] \<and> ''.#'' \<noteq> [] \<and> (\<forall>c\<in>set ''.#''. isPatternChar c)"
    by (simp add: good_def isPatternChar_def)
  then have hp: "hasPattern good" unfolding hasPattern_def by blast
  have ls: "inputLines input = [good] @ bad # []"
    unfolding input_def good_def bad_def using inputLines_example by simp
  note inst = malformed_pattern_rejected[of bad msg input]
  from inst np have a: "parseLine bad = Inl msg" unfolding msg_def by blast
  from ls hp np have "\<exists>pre l post. inputLines input = pre @ l # post \<and> (\<forall>x\<in>set pre. hasPattern x) \<and>
         \<not> hasPattern l \<and> msg = ''Invalid pattern: '' @ l"
    unfolding msg_def by (intro exI[of _ "[good]"] exI[of _ bad] exI[of _ "[]"]) simp
  with inst have b: "parseInput input = Inl msg" by blast
  from np a b show ?thesis unfolding bad_def input_def msg_def by simp
qed

text \<open>
  The claim as stated fails for button indices: a parenthesised group with a character
  that is neither a digit nor a comma is not a match of the button expression and is
  passed over, and an empty index is read as 0. The line below parses without error into a
  machine with the single button \<open>[0, 0]\<close>.
\<close>

lemma bad_buttons_parts:
  "inputLines ''[#] (a) (1,x) (,)'' = [''[#] (a) (1,x) (,)'']"
  "firstMatch (CHR ''['') isPatternChar (CHR '']'') ''[#] (a) (1,x) (,)'' = Some ''#''"
  "matchAll (CHR ''('') isIndexChar (CHR '')'') ''[#] (a) (1,x) (,)'' = ['','']"
  "firstMatch (CHR ''{'') isIndexChar (CHR ''}'') ''[#] (a) (1,x) (,)'' = None"
  "split (CHR '','') '','' = ['''', '''']"
  by code_simp+

lemma jsNumber_empty: "jsNumber [] = Fin 0"
  by (simp add: jsNumber_def decimalValue_def fl_zero)

theorem malformed_pattern_rejected_counterexample:
  "parseInput ''[#] (a) (1,x) (,)'' = Inr [\<lparr>ptarget = [True], pbuttons = [[Fin 0, Fin 0]], pjoltage = []\<rparr>]"
  by (simp add: parseInput_def parseLine_def bad_buttons_parts jsNumber_empty del: split.simps matchAll.simps)

end
